theory Spec2Isabelle
  imports
    Main
    "HOL-Library.Word"
    "HOL-Library.AList"
    "HOL-Library.Char_ord"
    "HOL-Library.List_Lexorder"
begin

section \<open>Common data\<close>

text \<open>
  Go byte slices and Go strings are both sequences of bytes; they are modelled as
  \<open>string\<close> (a list of 8-bit characters).
\<close>

type_synonym bytes = string

section \<open>Event store (internal/eventstore/memory.go)\<close>

text \<open>
  \<open>Event\<close> is the Go struct of the same name. \<open>Timestamp\<close> is a \<open>time.Time\<close>; only its
  order (\<open>Before\<close>) is used by the code, so an instant is an integer.
\<close>

record Event =
  ID :: string
  StreamID :: string
  Payload :: bytes
  Timestamp :: int

text \<open>
  \<open>Memory.events\<close> is a Go map from event id to event. Go iterates a map in an
  unspecified order, and \<open>ReplayAfter\<close> ranges over the map, so the map is an association
  list: its keys are distinct and the order of its entries is the order in which one
  particular \<open>range\<close> visits them. Theorems quantify over every such list, hence over every
  iteration order.
\<close>

type_synonym Memory = "(string \<times> Event) list"

definition NewMemory :: Memory where
  "NewMemory = []"

text \<open>\<open>generateID\<close>: the uuid string is drawn by the library and is an input here.\<close>

definition generateID :: "string \<Rightarrow> string \<Rightarrow> string" where
  "generateID streamID uuid = streamID @ ''_'' @ uuid"

text \<open>
  \<open>Store\<close>: the fresh uuid and the reading of the clock are inputs. Returns the updated
  map and the generated event id.
\<close>

definition Store :: "Memory \<Rightarrow> string \<Rightarrow> bytes \<Rightarrow> string \<Rightarrow> int \<Rightarrow> Memory \<times> string" where
  "Store m streamID payload uuid now =
     (let eventID = generateID streamID uuid in
      (AList.update eventID
         \<lparr>ID = eventID, StreamID = streamID, Payload = payload, Timestamp = now\<rparr> m,
       eventID))"

text \<open>
  The replay loop of \<open>ReplayAfter\<close>: \<open>found\<close> is set at every event whose id is the
  requested one (and that event is skipped); every other event is passed to the visitor
  once \<open>found\<close> is set. The result is the list of the visitor's arguments, in call order.
\<close>

fun replayLoop :: "string \<Rightarrow> bool \<Rightarrow> Event list \<Rightarrow> Event list" where
  "replayLoop lastEventID found [] = []"
| "replayLoop lastEventID found (e # es) =
     (if ID e = lastEventID then replayLoop lastEventID True es
      else if found then e # replayLoop lastEventID found es
      else replayLoop lastEventID found es)"

text \<open>
  \<open>ReplayAfter\<close> returns the stream id and the visitor's calls. \<open>sort.Slice\<close> with
  \<open>Timestamp.Before\<close> as the order is not stable; it returns some permutation that is
  ordered by timestamp. The model sorts with the stable \<open>sort_key\<close>: since the entries
  arrive in an arbitrary order already, every timestamp-ordered permutation is the stable
  sort of some iteration order, so nothing the Go sort can return is lost.
\<close>

definition ReplayAfter :: "Memory \<Rightarrow> string \<Rightarrow> string \<times> Event list" where
  "ReplayAfter m lastEventID =
     (case map_of m lastEventID of
        None \<Rightarrow> ('''', [])
      | Some event \<Rightarrow>
          (let streamID = StreamID event;
               streamEvents = filter (\<lambda>e. StreamID e = streamID) (map snd m);
               sorted = sort_key Timestamp streamEvents
           in (streamID, replayLoop lastEventID False sorted)))"

text \<open>
  The shape \<open>Store\<close> maintains: keys are distinct and every event is filed under its own id.
\<close>

definition wf_store :: "Memory \<Rightarrow> bool" where
  "wf_store m = (distinct (map fst m) \<and> list_all (\<lambda>(k, e). ID e = k) m)"

text \<open>Two stores built with \<open>Store\<close>, used below as concrete inputs.\<close>

definition tie_store :: Memory where
  "tie_store = fst (Store (fst (Store NewMemory ''s'' ''a'' ''1'' 0)) ''s'' ''b'' ''2'' 0)"

definition demo_store :: Memory where
  "demo_store =
     fst (Store (fst (Store (fst (Store (fst (Store NewMemory
       ''s'' ''a'' ''1'' 10)) ''t'' ''x'' ''2'' 20)) ''s'' ''c'' ''3'' 40)) ''s'' ''b'' ''4'' 30)"

section \<open>Event store: properties\<close>

lemma wf_store_NewMemory: "wf_store NewMemory"
  by (simp add: wf_store_def NewMemory_def)

lemma list_all_update:
  "list_all (\<lambda>(k, e). P k e) m \<Longrightarrow> P k v \<Longrightarrow> list_all (\<lambda>(k, e). P k e) (AList.update k v m)"
  by (induction m) (auto)

lemma wf_store_Store: "wf_store m \<Longrightarrow> wf_store (fst (Store m s p u t))"
  unfolding wf_store_def Store_def Let_def
  by (auto simp: distinct_update intro: list_all_update[where P = "\<lambda>k e. ID e = k"])

lemma replayLoop_found:
  "lastEventID \<notin> ID ` set es \<Longrightarrow> replayLoop lastEventID True es = es"
  by (induction es) auto

lemma replayLoop_split:
  "lastEventID \<notin> ID ` set as \<Longrightarrow> lastEventID \<notin> ID ` set bs \<Longrightarrow> ID e = lastEventID \<Longrightarrow>
   replayLoop lastEventID False (as @ e # bs) = bs"
  by (induction as) (auto simp: replayLoop_found)

lemma replayLoop_absent:
  "lastEventID \<notin> ID ` set es \<Longrightarrow> replayLoop lastEventID False es = []"
  by (induction es) auto


lemma wf_ID_inj: "wf_store m \<Longrightarrow> distinct (map ID (map snd m))"
proof -
  assume w: "wf_store m"
  then have "map ID (map snd m) = map fst m"
    by (induction m) (auto simp: wf_store_def)
  with w show ?thesis by (simp only: wf_store_def)
qed

lemma wf_map_of: "wf_store m \<Longrightarrow> (k, e) \<in> set m \<Longrightarrow> map_of m k = Some e \<and> ID e = k"
  by (auto simp: wf_store_def list_all_iff)

lemma stream_events_distinct:
  "wf_store m \<Longrightarrow> distinct (map ID (sort_key Timestamp (filter P (map snd m))))"
proof -
  assume w: "wf_store m"
  have "distinct (map ID (filter P (map snd m)))"
    using wf_ID_inj[OF w] by (simp add: distinct_map_filter)
  then show ?thesis by (simp add: distinct_map)
qed

lemma replay_suffix:
  assumes w: "wf_store m" and mem: "(k, e) \<in> set m"
  shows "\<exists>as bs. sort_key Timestamp (filter (\<lambda>x. StreamID x = StreamID e) (map snd m)) = as @ e # bs
           \<and> ReplayAfter m k = (StreamID e, bs)"
proof -
  let ?evs = "sort_key Timestamp (filter (\<lambda>x. StreamID x = StreamID e) (map snd m))"
  have lk: "map_of m k = Some e" and idk: "ID e = k" using wf_map_of[OF w mem] by auto
  have "e \<in> set ?evs" using mem by (auto simp: image_iff intro: bexI[of _ "(k, e)"])
  then obtain as bs where sp: "?evs = as @ e # bs" by (meson split_list)
  have d: "distinct (map ID ?evs)" by (rule stream_events_distinct[OF w])
  have "k \<notin> ID ` set as" "k \<notin> ID ` set bs"
    using d idk unfolding sp by auto
  then have "replayLoop k False ?evs = bs"
    unfolding sp using idk by (intro replayLoop_split) auto
  then have "ReplayAfter m k = (StreamID e, bs)"
    by (simp add: ReplayAfter_def lk Let_def)
  with sp show ?thesis by blast
qed

text \<open>
  Claim C3, as the code has it. Let \<open>e\<close> be filed in a well-formed store under key \<open>k\<close>.
  Then \<open>k\<close> is \<open>e\<close>'s id, \<open>ReplayAfter\<close> returns \<open>e\<close>'s stream id, and the visitor is
  called at most once per event, in ascending timestamp order, on every event of the same
  stream whose timestamp is strictly after \<open>e\<close>'s, and otherwise only on events of the same
  stream, other than \<open>e\<close>, whose timestamp equals \<open>e\<close>'s (which of those is unspecified).
  When no other event of the stream shares \<open>e\<close>'s timestamp, the visited events are exactly
  the strictly later ones. For an id that is not a key of the store, \<open>ReplayAfter\<close> returns
  the empty string and calls the visitor zero times.
\<close>

theorem ReplayAfter_replays_later_events:
  "(wf_store m \<and> (k, e) \<in> set m \<longrightarrow>
      k = ID e \<and> fst (ReplayAfter m k) = StreamID e \<and>
      (let vs = snd (ReplayAfter m k);
           later = {x \<in> snd ` set m. StreamID x = StreamID e \<and> Timestamp e < Timestamp x}
       in distinct vs \<and> sorted (map Timestamp vs) \<and> later \<subseteq> set vs \<and>
          set vs \<subseteq> {x \<in> snd ` set m. StreamID x = StreamID e \<and> Timestamp e \<le> Timestamp x \<and> x \<noteq> e} \<and>
          ((\<forall>x \<in> snd ` set m. StreamID x = StreamID e \<and> Timestamp x = Timestamp e \<longrightarrow> x = e)
             \<longrightarrow> set vs = later)))
   \<and> (k \<notin> fst ` set m \<longrightarrow> ReplayAfter m k = ('''', []))"
proof (intro conjI impI)
  assume "k \<notin> fst ` set m"
  then have "map_of m k = None" by (simp add: map_of_eq_None_iff)
  then show "ReplayAfter m k = ('''', [])" by (simp add: ReplayAfter_def)
next
  assume a: "wf_store m \<and> (k, e) \<in> set m"
  then have w: "wf_store m" and mem: "(k, e) \<in> set m" by auto
  show "k = ID e" using wf_map_of[OF w mem] by simp
  let ?evs = "sort_key Timestamp (filter (\<lambda>x. StreamID x = StreamID e) (map snd m))"
  obtain as bs where sp: "?evs = as @ e # bs" and ra: "ReplayAfter m k = (StreamID e, bs)"
    using replay_suffix[OF w mem] by blast
  show "fst (ReplayAfter m k) = StreamID e" by (simp add: ra)
  have d: "distinct (map ID ?evs)" by (rule stream_events_distinct[OF w])
  then have dd: "distinct ?evs" by (simp add: distinct_map)
  have srt: "sorted (map Timestamp ?evs)" by simp
  have setevs: "set ?evs = {x \<in> snd ` set m. StreamID x = StreamID e}" by auto
  have db: "distinct bs" and enb: "e \<notin> set bs" and ena: "e \<notin> set as"
    and disj: "set as \<inter> set bs = {}" using dd unfolding sp by auto
  have sb: "sorted (map Timestamp bs)" and ge: "\<forall>x\<in>set bs. Timestamp e \<le> Timestamp x"
    and le: "\<forall>x\<in>set as. Timestamp x \<le> Timestamp e"
    using srt unfolding sp by (auto simp: sorted_append)
  have sub: "set bs \<subseteq> {x \<in> snd ` set m. StreamID x = StreamID e \<and> Timestamp e \<le> Timestamp x \<and> x \<noteq> e}"
  proof
    fix x assume xb: "x \<in> set bs"
    then have "x \<in> set ?evs" unfolding sp by simp
    then have "x \<in> snd ` set m \<and> StreamID x = StreamID e" using setevs by blast
    with xb ge enb show "x \<in> {x \<in> snd ` set m. StreamID x = StreamID e \<and> Timestamp e \<le> Timestamp x \<and> x \<noteq> e}"
      by auto
  qed
  have sup: "{x \<in> snd ` set m. StreamID x = StreamID e \<and> Timestamp e < Timestamp x} \<subseteq> set bs"
  proof
    fix x assume "x \<in> {x \<in> snd ` set m. StreamID x = StreamID e \<and> Timestamp e < Timestamp x}"
    then have xin: "x \<in> set ?evs" and lt: "Timestamp e < Timestamp x" using setevs by auto
    from xin have "x \<in> set as \<or> x = e \<or> x \<in> set bs" unfolding sp by auto
    with lt le show "x \<in> set bs" by force
  qed
  have uniq: "(\<forall>x \<in> snd ` set m. StreamID x = StreamID e \<and> Timestamp x = Timestamp e \<longrightarrow> x = e)
     \<longrightarrow> set bs = {x \<in> snd ` set m. StreamID x = StreamID e \<and> Timestamp e < Timestamp x}"
  proof
    assume u: "\<forall>x \<in> snd ` set m. StreamID x = StreamID e \<and> Timestamp x = Timestamp e \<longrightarrow> x = e"
    have "set bs \<subseteq> {x \<in> snd ` set m. StreamID x = StreamID e \<and> Timestamp e < Timestamp x}"
    proof
      fix x assume xb: "x \<in> set bs"
      with sub have p: "x \<in> snd ` set m" "StreamID x = StreamID e" "Timestamp e \<le> Timestamp x" "x \<noteq> e"
        by auto
      with u have "Timestamp x \<noteq> Timestamp e" by blast
      with p show "x \<in> {x \<in> snd ` set m. StreamID x = StreamID e \<and> Timestamp e < Timestamp x}" by auto
    qed
    with sup show "set bs = {x \<in> snd ` set m. StreamID x = StreamID e \<and> Timestamp e < Timestamp x}" by blast
  qed
  show "let vs = snd (ReplayAfter m k);
           later = {x \<in> snd ` set m. StreamID x = StreamID e \<and> Timestamp e < Timestamp x}
       in distinct vs \<and> sorted (map Timestamp vs) \<and> later \<subseteq> set vs \<and>
          set vs \<subseteq> {x \<in> snd ` set m. StreamID x = StreamID e \<and> Timestamp e \<le> Timestamp x \<and> x \<noteq> e} \<and>
          ((\<forall>x \<in> snd ` set m. StreamID x = StreamID e \<and> Timestamp x = Timestamp e \<longrightarrow> x = e)
             \<longrightarrow> set vs = later)"
    unfolding Let_def ra snd_conv using db sb sup sub uniq by blast
qed

lemmas store_eval = demo_store_def tie_store_def Store_def NewMemory_def generateID_def Let_def

theorem ReplayAfter_replays_later_events_witness:
  "wf_store demo_store \<and>
   (''s_1'', \<lparr>ID = ''s_1'', StreamID = ''s'', Payload = ''a'', Timestamp = 10\<rparr>) \<in> set demo_store \<and>
   ReplayAfter demo_store ''s_1'' =
     (''s'', [\<lparr>ID = ''s_4'', StreamID = ''s'', Payload = ''b'', Timestamp = 30\<rparr>,
              \<lparr>ID = ''s_3'', StreamID = ''s'', Payload = ''c'', Timestamp = 40\<rparr>]) \<and>
   ''s_9'' \<notin> fst ` set demo_store \<and>
   ReplayAfter demo_store ''s_9'' = ('''', [])"
proof -
  have w: "wf_store demo_store"
    by (simp add: store_eval wf_store_def)
  have m: "(''s_1'', \<lparr>ID = ''s_1'', StreamID = ''s'', Payload = ''a'', Timestamp = 10\<rparr>)
      \<in> set demo_store"
    by (simp add: store_eval)
  have r: "snd (ReplayAfter demo_store ''s_1'') =
     [\<lparr>ID = ''s_4'', StreamID = ''s'', Payload = ''b'', Timestamp = 30\<rparr>,
      \<lparr>ID = ''s_3'', StreamID = ''s'', Payload = ''c'', Timestamp = 40\<rparr>]"
    by (simp add: store_eval ReplayAfter_def)
  have n: "''s_9'' \<notin> fst ` set demo_store"
    by (simp add: store_eval)
  have f: "fst (ReplayAfter demo_store ''s_1'') = ''s''"
    using ReplayAfter_replays_later_events
      [of demo_store "''s_1''" "\<lparr>ID = ''s_1'', StreamID = ''s'', Payload = ''a'', Timestamp = 10\<rparr>"]
      w m by simp
  have u: "ReplayAfter demo_store ''s_9'' = ('''', [])"
    using ReplayAfter_replays_later_events [of demo_store "''s_9''"] n by blast
  from f r have "ReplayAfter demo_store ''s_1'' =
     (''s'', [\<lparr>ID = ''s_4'', StreamID = ''s'', Payload = ''b'', Timestamp = 30\<rparr>,
              \<lparr>ID = ''s_3'', StreamID = ''s'', Payload = ''c'', Timestamp = 40\<rparr>])"
    by (simp add: prod_eq_iff)
  with w m n u show ?thesis by blast
qed

text \<open>
  Claim C3 as stated fails when two events of a stream carry the same timestamp: after
  two \<open>Store\<close> calls that read the same clock value, replaying after the first event
  visits the second, whose timestamp is not strictly later.
\<close>

theorem ReplayAfter_tie_counterexample:
  "wf_store tie_store \<and>
   (''s_1'', \<lparr>ID = ''s_1'', StreamID = ''s'', Payload = ''a'', Timestamp = 0\<rparr>) \<in> set tie_store \<and>
   ReplayAfter tie_store ''s_1'' =
     (''s'', [\<lparr>ID = ''s_2'', StreamID = ''s'', Payload = ''b'', Timestamp = 0\<rparr>]) \<and>
   \<not> Timestamp \<lparr>ID = ''s_1'', StreamID = ''s'', Payload = ''a'', Timestamp = 0\<rparr>
       < Timestamp \<lparr>ID = ''s_2'', StreamID = ''s'', Payload = ''b'', Timestamp = 0\<rparr>"
  by (simp add: tie_store_def Store_def NewMemory_def generateID_def ReplayAfter_def Let_def
      wf_store_def)

section \<open>Stdio transport: the close path (internal/stdio/client.go)\<close>

text \<open>
  The fields of \<open>Client\<close> that \<open>close\<close> and \<open>Send\<close> read or write. \<open>stdin\<close> tells whether
  the field holds a writer (is not nil); \<open>cmd\<close> is \<open>None\<close> for a nil command and \<open>Some p\<close>
  for a command whose \<open>Process\<close> is non-nil exactly when \<open>p\<close>; \<open>onClose\<close> tells whether an
  observer is registered; \<open>closedOnce\<close> is the done flag of the \<open>sync.Once\<close>. The last four
  fields record the effects performed so far: the number of \<open>stdin.Close\<close> calls, of
  \<open>Process.Kill\<close> calls, of invocations of the close observer, and the data written to
  the child's standard input.
\<close>

record Client =
  stdin :: bool
  cmd :: "bool option"
  onClose :: bool
  closedOnce :: bool
  stdinCloses :: nat
  kills :: nat
  onCloseCalls :: nat
  written :: "bytes list"

definition NewClient :: Client where
  "NewClient = \<lparr>stdin = False, cmd = None, onClose = False, closedOnce = False,
                 stdinCloses = 0, kills = 0, onCloseCalls = 0, written = []\<rparr>"

text \<open>\<open>OnClose\<close> registers the observer (a nil function clears the slot).\<close>

definition OnClose :: "bool \<Rightarrow> Client \<Rightarrow> Client" where
  "OnClose fn c = c\<lparr>onClose := fn\<rparr>"

text \<open>
  \<open>Client.close\<close>: the body runs under \<open>closedOnce.Do\<close>, so only while the flag is unset.
  The second component tells whether the observer was invoked by this call; the caller of
  the model runs the observer's own effect then. Both \<open>Close()\<close> and the goroutine that
  waits for the child's exit call this function.
\<close>

definition Client_close :: "Client \<Rightarrow> Client \<times> bool" where
  "Client_close c =
     (if closedOnce c then (c, False)
      else (c\<lparr>closedOnce := True, stdin := False, cmd := None,
               stdinCloses := stdinCloses c + (if stdin c then 1 else 0),
               kills := kills c + (if cmd c = Some True then 1 else 0),
               onCloseCalls := onCloseCalls c + (if onClose c then 1 else 0)\<rparr>,
            onClose c))"

text \<open>
  The outcome of \<open>stdin.Write\<close> on the pipe to the child, which the operating system
  decides: the write completes, it fails with an error, or it blocks without end (the
  pipe is full and the child does not read).
\<close>

datatype write_outcome = WriteOK | WriteError string | WriteBlocks

text \<open>
  \<open>Client.Send\<close>: fails when \<open>stdin\<close> is nil; otherwise writes the message followed by one
  line feed. The context it is given is not used, so nothing interrupts a write that
  blocks: the result \<open>None\<close> is a call that never returns.
\<close>

definition Client_Send ::
  "Client \<Rightarrow> bytes \<Rightarrow> write_outcome \<Rightarrow> (Client \<times> string option) option"
where
  "Client_Send c msg w =
     (if \<not> stdin c then Some (c, Some ''stdin not initialized'')
      else (case w of
              WriteOK \<Rightarrow> Some (c\<lparr>written := written c @ [msg @ [CHR 0x0A]]\<rparr>, None)
            | WriteError e \<Rightarrow> Some (c, Some e)
            | WriteBlocks \<Rightarrow> None))"

section \<open>Session (internal/httpserver, session.go)\<close>

text \<open>
  A subscriber channel: a buffered Go channel of events with its capacity. A send that
  does not block succeeds exactly when the buffer has room.
\<close>

record subchan =
  cap :: nat
  buf :: "Event list"

text \<open>
  The \<open>session\<close> struct. \<open>sessionID\<close> is the field \<open>id\<close>. The transport is the stdio client.
  \<open>pending\<close> maps the raw id token of a request to the channel made for it; channels are
  shared objects, so they are handles (natural numbers) into \<open>chans\<close>, which holds the
  buffered messages of every channel made so far; \<open>nextChan\<close> is the handle that the next
  \<open>make\<close> returns. \<open>ctxDone\<close> tells whether the session's context is cancelled.
  \<open>sessOnClose\<close> tells whether the field \<open>onClose\<close> is non-nil and \<open>sessOnCloseCalls\<close>
  counts its invocations; \<open>closeOnce\<close> is the done flag of the session's \<open>sync.Once\<close>.
  \<open>parked\<close> is not a field of the struct: it records the goroutine of the transport's
  reader when it is blocked in a channel send inside \<open>handleMessage\<close> (the channel, the
  message, and the inputs of the rest of that call).
\<close>

record session =
  sessionID :: string
  transport :: Client
  pending :: "bytes \<rightharpoonup> nat"
  chans :: "nat \<Rightarrow> bytes list"
  nextChan :: nat
  subs :: "subchan list"
  store :: "Memory option"
  ctxDone :: bool
  sessOnClose :: bool
  closeOnce :: bool
  sessOnCloseCalls :: nat
  parked :: "(nat \<times> bytes \<times> string \<times> int) option"

text \<open>\<open>s.closeOnce.Do(func() { if s.onClose != nil { s.onClose() } })\<close>\<close>

definition closeOnce_Do :: "session \<Rightarrow> session" where
  "closeOnce_Do s =
     (if closeOnce s then s
      else s\<lparr>closeOnce := True,
              sessOnCloseCalls := sessOnCloseCalls s + (if sessOnClose s then 1 else 0)\<rparr>)"

text \<open>The handler that \<open>newSession\<close> registers with \<open>transport.OnClose\<close>.\<close>

definition transportOnClose :: "session \<Rightarrow> session" where
  "transportOnClose s = closeOnce_Do (s\<lparr>ctxDone := True\<rparr>)"

text \<open>
  \<open>newSession\<close>: the close observer of the transport becomes the session's handler. (The
  message and error observers are \<open>handleMessage\<close> and \<open>onError\<close> below.)
\<close>

definition newSession :: "string \<Rightarrow> Client \<Rightarrow> Memory option \<Rightarrow> bool \<Rightarrow> session" where
  "newSession ident tr st hook =
     \<lparr>sessionID = ident, transport = OnClose True tr, pending = Map.empty,
      chans = (\<lambda>_. []), nextChan = 0, subs = [], store = st, ctxDone = False,
      sessOnClose = hook, closeOnce = False, sessOnCloseCalls = 0, parked = None\<rparr>"

text \<open>
  The transport's \<open>close\<close> as seen from the session: when the client invokes its observer,
  the session's handler runs.
\<close>

definition transport_close :: "session \<Rightarrow> session" where
  "transport_close s =
     (let (c, fired) = Client_close (transport s);
          s' = s\<lparr>transport := c\<rparr>
      in if fired then transportOnClose s' else s')"

text \<open>\<open>session.close\<close>: cancel, run the hook once, close the transport.\<close>

definition session_close :: "session \<Rightarrow> session" where
  "session_close s = transport_close (closeOnce_Do (s\<lparr>ctxDone := True\<rparr>))"

text \<open>
  Any number of close requests, in any order: \<open>Close\<close> is a call of \<open>Close()\<close> (on the
  client, or \<open>close()\<close> on the session), \<open>ProcessExit\<close> is the exit of the child process,
  upon which the waiting goroutine calls the client's \<open>close\<close>.
\<close>

datatype close_request = Close | ProcessExit

fun client_closes :: "Client \<Rightarrow> close_request list \<Rightarrow> Client" where
  "client_closes c [] = c"
| "client_closes c (r # rs) = client_closes (fst (Client_close c)) rs"

fun session_closes :: "session \<Rightarrow> close_request list \<Rightarrow> session" where
  "session_closes s [] = s"
| "session_closes s (Close # rs) = session_closes (session_close s) rs"
| "session_closes s (ProcessExit # rs) = session_closes (transport_close s) rs"

section \<open>Close is idempotent\<close>

lemma Client_close_closed: "closedOnce c \<Longrightarrow> Client_close c = (c, False)"
  by (simp add: Client_close_def)

lemma Client_close_sets: "closedOnce (fst (Client_close c))"
  by (simp add: Client_close_def)

lemma client_closes_closed: "closedOnce c \<Longrightarrow> client_closes c rs = c"
  by (induction rs) (simp_all add: Client_close_closed)

lemma client_closes_Cons: "client_closes c (r # rs) = fst (Client_close c)"
  by (simp add: client_closes_closed Client_close_sets)

lemma transport_close_closed:
  "closedOnce (transport s) \<Longrightarrow> transport_close s = s"
  by (simp add: transport_close_def Client_close_closed)

lemma session_close_closed:
  "closedOnce (transport s) \<Longrightarrow> closeOnce s \<Longrightarrow> session_close s = s\<lparr>ctxDone := True\<rparr>"
  by (simp add: session_close_def closeOnce_Do_def transport_close_def Client_close_closed)

lemma closed_after_transport_close:
  "onClose (transport s) \<Longrightarrow> \<not> closedOnce (transport s) \<Longrightarrow>
   closedOnce (transport (transport_close s)) \<and> closeOnce (transport_close s) \<and>
   ctxDone (transport_close s) \<and> onClose (transport (transport_close s))"
  by (simp add: transport_close_def Client_close_def transportOnClose_def closeOnce_Do_def
      Let_def)

lemma closed_after_session_close:
  "onClose (transport s) \<Longrightarrow>
   closedOnce (transport (session_close s)) \<and> closeOnce (session_close s) \<and>
   ctxDone (session_close s) \<and> onClose (transport (session_close s))"
  by (simp add: session_close_def transport_close_def Client_close_def transportOnClose_def
      closeOnce_Do_def Let_def)

lemma session_closes_closed:
  "closedOnce (transport s) \<Longrightarrow> closeOnce s \<Longrightarrow> ctxDone s \<Longrightarrow> session_closes s rs = s"
proof (induction rs)
  case Nil
  then show ?case by simp
next
  case (Cons r rs)
  have "s\<lparr>ctxDone := True\<rparr> = s" using Cons.prems by simp
  then have "session_close s = s" "transport_close s = s"
    using Cons.prems by (simp_all add: session_close_closed transport_close_closed)
  with Cons show ?case
    by (cases r) simp_all
qed

lemma session_closes_Cons:
  assumes "onClose (transport s)" "\<not> closedOnce (transport s)"
  shows "session_closes s (r # rs) = (case r of Close \<Rightarrow> session_close s | ProcessExit \<Rightarrow> transport_close s)"
  using assms closed_after_session_close[of s] closed_after_transport_close[of s]
  by (cases r) (simp_all add: session_closes_closed)

lemma first_close_counts:
  "\<not> closedOnce (transport s) \<Longrightarrow> \<not> closeOnce s \<Longrightarrow> onClose (transport s) \<Longrightarrow>
   sessOnCloseCalls (session_close s) = sessOnCloseCalls s + (if sessOnClose s then 1 else 0) \<and>
   sessOnCloseCalls (transport_close s) = sessOnCloseCalls s + (if sessOnClose s then 1 else 0) \<and>
   onCloseCalls (transport (session_close s)) = onCloseCalls (transport s) + 1 \<and>
   onCloseCalls (transport (transport_close s)) = onCloseCalls (transport s) + 1"
  by (simp add: session_close_def transport_close_def Client_close_def transportOnClose_def
      closeOnce_Do_def Let_def)

text \<open>
  Claim C8. Stdio transport: from a client whose \<open>sync.Once\<close> has not run, any non-empty
  sequence of close requests (calls of \<open>Close\<close> and exits of the child, in any order) leaves
  the client in the state reached by the first one, so the close observer has fired once
  if one is registered and never otherwise; and a close request on a client that is
  already closed changes nothing. Session: from a session and transport whose
  \<open>sync.Once\<close> have not run, with the session's handler registered on the transport (as
  \<open>newSession\<close> does), any non-empty sequence of \<open>close()\<close> calls and child exits invokes
  the session's \<open>onClose\<close> once if it is set and never otherwise, and the transport's
  observer once; and once both are closed, a further close request changes nothing but
  (again) cancelling the context.
\<close>

theorem close_idempotent:
  "(\<not> closedOnce c \<longrightarrow>
      client_closes c (r # rs) = fst (Client_close c) \<and>
      onCloseCalls (client_closes c (r # rs)) = onCloseCalls c + (if onClose c then 1 else 0)) \<and>
   (closedOnce c \<longrightarrow> Client_close c = (c, False) \<and> client_closes c rs = c) \<and>
   (\<not> closedOnce (transport s) \<and> \<not> closeOnce s \<and> onClose (transport s) \<longrightarrow>
      sessOnCloseCalls (session_closes s (r # rs))
        = sessOnCloseCalls s + (if sessOnClose s then 1 else 0) \<and>
      onCloseCalls (transport (session_closes s (r # rs))) = onCloseCalls (transport s) + 1) \<and>
   (closedOnce (transport s) \<and> closeOnce s \<longrightarrow>
      session_close s = s\<lparr>ctxDone := True\<rparr> \<and> transport_close s = s \<and>
      sessOnCloseCalls (session_closes s rs) = sessOnCloseCalls s \<and>
      onCloseCalls (transport (session_closes s rs)) = onCloseCalls (transport s))"
proof (intro conjI impI)
  assume "\<not> closedOnce c"
  show "client_closes c (r # rs) = fst (Client_close c)" by (rule client_closes_Cons)
  then show "onCloseCalls (client_closes c (r # rs)) = onCloseCalls c + (if onClose c then 1 else 0)"
    using \<open>\<not> closedOnce c\<close> by (simp add: Client_close_def)
next
  assume "closedOnce c"
  then show "Client_close c = (c, False)" "client_closes c rs = c"
    by (simp_all add: Client_close_closed client_closes_closed)
next
  assume a: "\<not> closedOnce (transport s) \<and> \<not> closeOnce s \<and> onClose (transport s)"
  then have e: "session_closes s (r # rs) = (case r of Close \<Rightarrow> session_close s | ProcessExit \<Rightarrow> transport_close s)"
    by (intro session_closes_Cons) simp_all
  show "sessOnCloseCalls (session_closes s (r # rs)) = sessOnCloseCalls s + (if sessOnClose s then 1 else 0)"
    unfolding e using first_close_counts[of s] a by (cases r) simp_all
  show "onCloseCalls (transport (session_closes s (r # rs))) = onCloseCalls (transport s) + 1"
    unfolding e using first_close_counts[of s] a by (cases r) simp_all
next
  assume a: "closedOnce (transport s) \<and> closeOnce s"
  then show "session_close s = s\<lparr>ctxDone := True\<rparr>" "transport_close s = s"
    by (simp_all add: session_close_closed transport_close_closed)
  have n: "sessOnCloseCalls (session_closes s' rs) = sessOnCloseCalls s' \<and>
           onCloseCalls (transport (session_closes s' rs)) = onCloseCalls (transport s')"
    if "closedOnce (transport s')" "closeOnce s'" for s'
    using that
  proof (induction rs arbitrary: s')
    case Nil
    then show ?case by simp
  next
    case (Cons q qs)
    show ?case
    proof (cases q)
      case Close
      have "session_close s' = s'\<lparr>ctxDone := True\<rparr>"
        using Cons.prems by (simp add: session_close_closed)
      then show ?thesis using Cons.IH[of "s'\<lparr>ctxDone := True\<rparr>"] Cons.prems Close by simp
    next
      case ProcessExit
      then show ?thesis using Cons.IH[of s'] Cons.prems by (simp add: transport_close_closed)
    qed
  qed
  from n[of s] a
  show "sessOnCloseCalls (session_closes s rs) = sessOnCloseCalls s"
    "onCloseCalls (transport (session_closes s rs)) = onCloseCalls (transport s)"
    by simp_all
qed

theorem close_idempotent_witness:
  "\<not> closedOnce (OnClose True NewClient) \<and>
   onCloseCalls (client_closes (OnClose True NewClient) [Close, ProcessExit, Close]) = 1 \<and>
   \<not> closedOnce (transport (newSession ''s1'' NewClient None True)) \<and>
   \<not> closeOnce (newSession ''s1'' NewClient None True) \<and>
   onClose (transport (newSession ''s1'' NewClient None True)) \<and>
   sessOnCloseCalls (session_closes (newSession ''s1'' NewClient None True)
      [ProcessExit, Close, Close]) = 1 \<and>
   onCloseCalls (transport (session_closes (newSession ''s1'' NewClient None True)
      [ProcessExit, Close, Close])) = 1"
  using close_idempotent [of "OnClose True NewClient" Close "[ProcessExit, Close]"
      "newSession ''s1'' NewClient None True"]
    close_idempotent [of "OnClose True NewClient" ProcessExit "[Close, Close]"
      "newSession ''s1'' NewClient None True"]
  by (simp add: NewClient_def OnClose_def newSession_def)

section \<open>JSON encoding of the synthetic messages (encoding/json)\<close>

text \<open>
  The messages the proxy builds itself are Go maps from strings to strings, integers,
  nil and further such maps, serialised with \<open>json.Marshal\<close>.
\<close>

datatype jvalue = JString string | JInt int | JNull | JObject "(string \<times> jvalue) list"

text \<open>Decimal digits of a natural number, as \<open>strconv\<close> and the verb \<open>%d\<close> print them.\<close>

definition digit_char :: "nat \<Rightarrow> char" where
  "digit_char d = ''0123456789'' ! d"

function show_nat :: "nat \<Rightarrow> string" where
  "show_nat n = (if n < 10 then [digit_char n] else show_nat (n div 10) @ [digit_char (n mod 10)])"
  by pat_completeness auto
termination
  by (relation "measure id") auto

declare show_nat.simps [simp del]

definition show_int :: "int \<Rightarrow> string" where
  "show_int i = (if i < 0 then CHR ''-'' # show_nat (nat (- i)) else show_nat (nat i))"

text \<open>
  The bytes that the encoder copies unchanged into a string literal when HTML escaping is
  on (as it is for \<open>json.Marshal\<close>): the ASCII range from space to DEL without the double
  quote, the backslash, and the characters \<open><\<close>, \<open>>\<close> and \<open>&\<close>.
\<close>

definition htmlSafe :: "char \<Rightarrow> bool" where
  "htmlSafe c = (32 \<le> (of_char c :: nat) \<and> (of_char c :: nat) \<le> 127 \<and>
                 c \<notin> {CHR 0x22, CHR 0x5C, CHR ''<'', CHR ''>'', CHR ''&''})"

text \<open>
  The encoding of a Go string: a string of safe bytes is copied between double quotes.
  How the library escapes any other string (control characters, quotes, non-ASCII and
  invalid UTF-8) is not part of this repository; \<open>esc\<close> stands for it.
\<close>

definition encodeString :: "(string \<Rightarrow> bytes) \<Rightarrow> string \<Rightarrow> bytes" where
  "encodeString esc s = (if list_all htmlSafe s then [CHR 0x22] @ s @ [CHR 0x22] else esc s)"

fun commaJoin :: "bytes list \<Rightarrow> bytes" where
  "commaJoin [] = []"
| "commaJoin [x] = x"
| "commaJoin (x # y # zs) = x @ '','' @ commaJoin (y # zs)"

text \<open>
  \<open>json.Marshal\<close> on such a value: the entries of a map are written in the byte order of
  their keys, without white space.
\<close>

fun marshal :: "(string \<Rightarrow> bytes) \<Rightarrow> jvalue \<Rightarrow> bytes" where
  "marshal esc (JString s) = encodeString esc s"
| "marshal esc (JInt i) = show_int i"
| "marshal esc JNull = ''null''"
| "marshal esc (JObject kvs) =
     ''{'' @ commaJoin (map snd (sort_key fst
        (map (\<lambda>kv. (fst kv, encodeString esc (fst kv) @ '':'' @ marshal esc (snd kv))) kvs)))
     @ ''}''"

section \<open>HTTP front end: authentication gate (internal/auth, internal/httpserver)\<close>

text \<open>
  What the handlers read of an \<open>http.Request\<close>: the method, the path, the headers (a
  partial map; \<open>Header.Get\<close> returns the empty string for an absent header) and the result
  of reading the body (an error text, or the bytes).
\<close>

record HttpRequest =
  httpMethod :: string
  urlPath :: string
  reqHeader :: "string \<rightharpoonup> string"
  reqBody :: "string + bytes"

definition Header_Get :: "HttpRequest \<Rightarrow> string \<Rightarrow> string" where
  "Header_Get r name = (case reqHeader r name of None \<Rightarrow> '''' | Some v \<Rightarrow> v)"

text \<open>
  An \<open>http.Header\<close> under construction: header names with their lists of values.
  \<open>Header_Set\<close> replaces the values of a name, \<open>Header_Add\<close> appends one.
\<close>

type_synonym Header = "(string \<times> string list) list"

definition Header_Set :: "string \<Rightarrow> string \<Rightarrow> Header \<Rightarrow> Header" where
  "Header_Set k v h = AList.update k [v] h"

definition Header_Add :: "string \<Rightarrow> string \<Rightarrow> Header \<Rightarrow> Header" where
  "Header_Add k v h =
     AList.update k (case map_of h k of None \<Rightarrow> [v] | Some vs \<Rightarrow> vs @ [v]) h"

record Response =
  status :: nat
  respHeader :: Header
  respBody :: bytes

text \<open>
  \<open>Options\<close>: the fields the handlers branch on. For the callbacks only their presence
  (non-nil) is recorded.
\<close>

record Options =
  APIKey :: string
  StreamEndpoint :: string
  SSEEndpoint :: string
  Stateless :: bool
  hasCreateTransport :: bool
  hasEventStoreFactory :: bool
  hasOnUnhandled :: bool

text \<open>\<open>auth.Middleware.Validate\<close>, with the configured key.\<close>

definition Validate :: "string \<Rightarrow> HttpRequest \<Rightarrow> bool" where
  "Validate apiKey r =
     (if apiKey = '''' then True else Header_Get r ''X-API-Key'' = apiKey)"

text \<open>\<open>auth.Middleware.UnauthorizedResponse\<close>: status, headers and body.\<close>

definition UnauthorizedResponse :: "(string \<Rightarrow> bytes) \<Rightarrow> nat \<times> Header \<times> bytes" where
  "UnauthorizedResponse esc =
     (401,
      Header_Set ''Content-Type'' ''application/json'' [],
      marshal esc (JObject
        [(''error'', JObject
            [(''code'', JInt 401),
             (''message'', JString ''Unauthorized: Invalid or missing API key'')]),
         (''id'', JNull),
         (''jsonrpc'', JString ''2.0'')]))"

text \<open>
  \<open>Server.handle\<close> either writes the response itself or passes the request on to one of
  the endpoint handlers, together with the headers set so far.
\<close>

datatype route = StreamRoute | SSERoute | UnhandledRoute

datatype handled = Responded Response | Routed route Header

definition corsHeaders :: "HttpRequest \<Rightarrow> Header" where
  "corsHeaders r =
     (Header_Set ''Access-Control-Expose-Headers'' ''mcp-session-id''
     (Header_Set ''Access-Control-Allow-Headers''
        ''Content-Type, Authorization, X-API-Key, mcp-session-id''
     (Header_Set ''Access-Control-Allow-Methods'' ''GET, POST, OPTIONS, DELETE''
     (Header_Set ''Access-Control-Allow-Credentials'' ''true''
     (Header_Set ''Access-Control-Allow-Origin''
        (if Header_Get r ''Origin'' \<noteq> '''' then Header_Get r ''Origin'' else ''*'') [])))))"

text \<open>The loop that copies the headers of \<open>UnauthorizedResponse\<close> into the response.\<close>

definition addAll :: "Header \<Rightarrow> Header \<Rightarrow> Header" where
  "addAll hs w = fold (\<lambda>(k, vals) w'. fold (Header_Add k) vals w') hs w"

definition handle :: "(string \<Rightarrow> bytes) \<Rightarrow> Options \<Rightarrow> HttpRequest \<Rightarrow> handled" where
  "handle esc opts r =
     (let w = corsHeaders r in
      if httpMethod r = ''OPTIONS'' then
        Responded \<lparr>status = 204, respHeader = w, respBody = []\<rparr>
      else if urlPath r = ''/ping'' \<and> httpMethod r = ''GET'' then
        Responded \<lparr>status = 200, respHeader = w, respBody = ''pong''\<rparr>
      else if \<not> Validate (APIKey opts) r then
        (let (code, headers, body) = UnauthorizedResponse esc in
         Responded \<lparr>status = code, respHeader = addAll headers w, respBody = body\<rparr>)
      else if urlPath r = StreamEndpoint opts then Routed StreamRoute w
      else if urlPath r = SSEEndpoint opts then Routed SSERoute w
      else if hasOnUnhandled opts then Routed UnhandledRoute w
      else Responded \<lparr>status = 404, respHeader = w, respBody = []\<rparr>)"

text \<open>A server configured with the key \<open>secret\<close> and three requests that carry no key.\<close>

definition secret_opts :: Options where
  "secret_opts = \<lparr>APIKey = ''secret'', StreamEndpoint = ''/mcp'', SSEEndpoint = ''/sse'',
     Stateless = False, hasCreateTransport = True, hasEventStoreFactory = False,
     hasOnUnhandled = False\<rparr>"

definition post_without_key :: HttpRequest where
  "post_without_key = \<lparr>httpMethod = ''POST'', urlPath = ''/mcp'', reqHeader = Map.empty,
     reqBody = Inr ''{}''\<rparr>"

definition options_without_key :: HttpRequest where
  "options_without_key = \<lparr>httpMethod = ''OPTIONS'', urlPath = ''/mcp'', reqHeader = Map.empty,
     reqBody = Inr []\<rparr>"

section \<open>Authentication gate: properties\<close>

lemma marshal_unauthorized:
  \<open>marshal esc (JObject
        [(''error'', JObject
            [(''code'', JInt 401),
             (''message'', JString ''Unauthorized: Invalid or missing API key'')]),
         (''id'', JNull),
         (''jsonrpc'', JString ''2.0'')])
   = ''{"error":{"code":401,"message":"Unauthorized: Invalid or missing API key"},"id":null,"jsonrpc":"2.0"}''\<close>
  by (simp add: encodeString_def htmlSafe_def show_int_def show_nat.simps digit_char_def)

lemma marshal_unauthorized_spec_order:
  \<open>marshal esc (JObject
        [(''jsonrpc'', JString ''2.0''),
         (''id'', JNull),
         (''error'', JObject
            [(''code'', JInt 401),
             (''message'', JString ''Unauthorized: Invalid or missing API key'')])])
   = ''{"error":{"code":401,"message":"Unauthorized: Invalid or missing API key"},"id":null,"jsonrpc":"2.0"}''\<close>
  by (simp add: encodeString_def htmlSafe_def show_int_def show_nat.simps digit_char_def)

lemma content_type_added:
  "map_of (addAll (Header_Set ''Content-Type'' ''application/json'' []) (corsHeaders r))
     ''Content-Type'' = Some [''application/json'']"
  by (simp add: addAll_def Header_Set_def Header_Add_def corsHeaders_def)

text \<open>
  Claim C7, as the code has it. When an API key is configured, a request whose
  \<open>X-API-Key\<close> header is absent or differs from the key, and that is neither an \<open>OPTIONS\<close>
  request nor \<open>GET /ping\<close>, is answered by \<open>handle\<close> itself with status 401, with the
  header \<open>Content-Type: application/json\<close> (besides the CORS headers), and a body that is
  the serialisation of the JSON-RPC error object of the specification, namely the object
  with the members \<open>jsonrpc\<close>, \<open>id\<close> and \<open>error\<close> written in the order of their keys.
\<close>

theorem unauthorized_request_gets_401:
  assumes "APIKey opts \<noteq> ''''"
    and "reqHeader r ''X-API-Key'' = None \<or> reqHeader r ''X-API-Key'' \<noteq> Some (APIKey opts)"
    and "httpMethod r \<noteq> ''OPTIONS''"
    and "\<not> (urlPath r = ''/ping'' \<and> httpMethod r = ''GET'')"
  shows \<open>handle esc opts r =
           Responded \<lparr>status = 401,
             respHeader = addAll [(''Content-Type'', [''application/json''])] (corsHeaders r),
             respBody = marshal esc (JObject
               [(''jsonrpc'', JString ''2.0''),
                (''id'', JNull),
                (''error'', JObject
                   [(''code'', JInt 401),
                    (''message'', JString ''Unauthorized: Invalid or missing API key'')])])\<rparr>
         \<and> map_of (addAll [(''Content-Type'', [''application/json''])] (corsHeaders r))
               ''Content-Type'' = Some [''application/json'']
         \<and> marshal esc (JObject
               [(''jsonrpc'', JString ''2.0''),
                (''id'', JNull),
                (''error'', JObject
                   [(''code'', JInt 401),
                    (''message'', JString ''Unauthorized: Invalid or missing API key'')])])
             = ''{"error":{"code":401,"message":"Unauthorized: Invalid or missing API key"},"id":null,"jsonrpc":"2.0"}''\<close>
proof -
  have nv: "\<not> Validate (APIKey opts) r"
    using assms(1,2) by (auto simp: Validate_def Header_Get_def split: option.splits)
  have hs: "Header_Set ''Content-Type'' ''application/json'' [] = [(''Content-Type'', [''application/json''])]"
    by (simp add: Header_Set_def)
  have "handle esc opts r =
           Responded \<lparr>status = 401,
             respHeader = addAll [(''Content-Type'', [''application/json''])] (corsHeaders r),
             respBody = marshal esc (JObject
               [(''jsonrpc'', JString ''2.0''),
                (''id'', JNull),
                (''error'', JObject
                   [(''code'', JInt 401),
                    (''message'', JString ''Unauthorized: Invalid or missing API key'')])])\<rparr>"
    unfolding handle_def Let_def UnauthorizedResponse_def hs
      marshal_unauthorized marshal_unauthorized_spec_order
    using nv assms(3,4) by simp
  then show ?thesis
    using content_type_added[of r] marshal_unauthorized_spec_order[of esc] unfolding hs by simp
qed

theorem unauthorized_request_gets_401_witness:
  \<open>APIKey secret_opts \<noteq> '''' \<and> reqHeader post_without_key ''X-API-Key'' = None \<and>
   httpMethod post_without_key \<noteq> ''OPTIONS'' \<and>
   handle (\<lambda>s. s) secret_opts post_without_key =
      Responded \<lparr>status = 401,
        respHeader = addAll [(''Content-Type'', [''application/json''])]
                       (corsHeaders post_without_key),
        respBody = ''{"error":{"code":401,"message":"Unauthorized: Invalid or missing API key"},"id":null,"jsonrpc":"2.0"}''\<rparr>\<close>
proof -
  have a: "APIKey secret_opts \<noteq> ''''" "reqHeader post_without_key ''X-API-Key'' = None"
    "httpMethod post_without_key \<noteq> ''OPTIONS''"
    "\<not> (urlPath post_without_key = ''/ping'' \<and> httpMethod post_without_key = ''GET'')"
    by (simp_all add: secret_opts_def post_without_key_def)
  from a(2) have b: "reqHeader post_without_key ''X-API-Key'' = None \<or>
      reqHeader post_without_key ''X-API-Key'' \<noteq> Some (APIKey secret_opts)" by simp
  show ?thesis
    using unauthorized_request_gets_401 [of secret_opts post_without_key "\<lambda>s. s", OF a(1) b a(3) a(4)] a
    by simp
qed

text \<open>
  Claim C7 as stated fails for a CORS preflight: with the key \<open>secret\<close> configured, an
  \<open>OPTIONS\<close> request without \<open>X-API-Key\<close> is answered with 204 before the key is checked.
\<close>

theorem options_bypasses_auth_counterexample:
  "APIKey secret_opts \<noteq> '''' \<and> reqHeader options_without_key ''X-API-Key'' = None \<and>
   handle (\<lambda>s. s) secret_opts options_without_key =
     Responded \<lparr>status = 204,
       respHeader =
         [(''Access-Control-Allow-Origin'', [''*'']),
          (''Access-Control-Allow-Credentials'', [''true'']),
          (''Access-Control-Allow-Methods'', [''GET, POST, OPTIONS, DELETE'']),
          (''Access-Control-Allow-Headers'',
             [''Content-Type, Authorization, X-API-Key, mcp-session-id'']),
          (''Access-Control-Expose-Headers'', [''mcp-session-id''])],
       respBody = []\<rparr>"
  by (simp add: secret_opts_def options_without_key_def handle_def corsHeaders_def
      Header_Set_def Header_Get_def)

section \<open>Session: inbound messages, errors and heartbeats\<close>

text \<open>
  \<open>json.Unmarshal\<close> into a \<open>map[string]json.RawMessage\<close> yields, for a JSON object, the raw
  token of every top-level member, and an error otherwise. The decoder belongs to the
  library; \<open>u\<close> stands for it in the functions below (\<open>None\<close> is the error).
\<close>

type_synonym envelope = "string \<rightharpoonup> bytes"

type_synonym unmarshaler = "bytes \<Rightarrow> envelope option"

text \<open>The zero \<open>time.Time\<close>, which an \<open>Event\<close> literal without \<open>Timestamp\<close> carries.\<close>

definition zeroTime :: int where
  "zeroTime = 0"

text \<open>The \<open>select\<close> with a \<open>default\<close> branch in \<open>broadcast\<close>: send if there is room, else drop.\<close>

definition trySend :: "Event \<Rightarrow> subchan \<Rightarrow> subchan" where
  "trySend e c = (if length (buf c) < cap c then c\<lparr>buf := buf c @ [e]\<rparr> else c)"

definition broadcast :: "session \<Rightarrow> Event \<Rightarrow> session" where
  "broadcast s event = s\<lparr>subs := map (trySend event) (subs s)\<rparr>"

text \<open>
  \<open>storeAndBroadcast\<close>: the uuid and the clock reading that \<open>Store\<close> draws are inputs.
\<close>

definition storeAndBroadcast :: "session \<Rightarrow> bytes \<Rightarrow> string \<Rightarrow> int \<Rightarrow> session" where
  "storeAndBroadcast s payload uuid now =
     (let event = \<lparr>ID = '''', StreamID = sessionID s, Payload = payload, Timestamp = zeroTime\<rparr>
      in case store s of
           None \<Rightarrow> broadcast s event
         | Some m \<Rightarrow>
             (let (m', eventID) = Store m (sessionID s) payload uuid now
              in broadcast (s\<lparr>store := Some m'\<rparr>) (event\<lparr>ID := eventID\<rparr>)))"

text \<open>
  \<open>handleMessage\<close>. The send \<open>ch <- msg\<close> on the one-slot channel of a pending request
  completes at once when the slot is free. When the slot is taken the sending goroutine
  (the transport's reader) parks inside \<open>handleMessage\<close>; the model records the parked
  send in \<open>parked\<close> with the inputs of the rest of the call, and \<open>chanRecv\<close> resumes it.
\<close>

definition handleMessage :: "unmarshaler \<Rightarrow> session \<Rightarrow> bytes \<Rightarrow> string \<Rightarrow> int \<Rightarrow> session" where
  "handleMessage u s raw uuid now =
     (case u raw of
        None \<Rightarrow> storeAndBroadcast s raw uuid now
      | Some envelope \<Rightarrow>
          (case envelope ''id'' of
             Some idRaw \<Rightarrow>
               (case pending s idRaw of
                  Some ch \<Rightarrow>
                    if chans s ch = []
                    then storeAndBroadcast (s\<lparr>chans := (chans s)(ch := [raw])\<rparr>) raw uuid now
                    else s\<lparr>parked := Some (ch, raw, uuid, now)\<rparr>
                | None \<Rightarrow> storeAndBroadcast s raw uuid now)
           | None \<Rightarrow> storeAndBroadcast s raw uuid now))"

text \<open>
  A receive from channel \<open>ch\<close>, whose slot is taken: the message leaves the slot; a send
  parked on this channel then fills the slot and its \<open>handleMessage\<close> call runs on.
\<close>

definition chanRecv :: "session \<Rightarrow> nat \<Rightarrow> bytes \<times> session" where
  "chanRecv s ch =
     (let msg = hd (chans s ch);
          s1 = s\<lparr>chans := (chans s)(ch := [])\<rparr>
      in (msg,
          case parked s of
            Some (c, raw, uuid, now) \<Rightarrow>
              if c = ch
              then storeAndBroadcast (s1\<lparr>chans := (chans s1)(ch := [raw]), parked := None\<rparr>)
                     raw uuid now
              else s1
          | None \<Rightarrow> s1))"

text \<open>\<open>buildErrorMessage\<close> and the error observer that \<open>newSession\<close> registers.\<close>

definition buildErrorMessage :: "(string \<Rightarrow> bytes) \<Rightarrow> string \<Rightarrow> bytes" where
  "buildErrorMessage esc err =
     marshal esc (JObject
       [(''jsonrpc'', JString ''2.0''),
        (''method'', JString ''mcp-proxy/error''),
        (''params'', JObject [(''message'', JString err)])])"

definition onError :: "(string \<Rightarrow> bytes) \<Rightarrow> session \<Rightarrow> string \<Rightarrow> session" where
  "onError esc s err =
     broadcast s \<lparr>ID = '''', StreamID = sessionID s, Payload = buildErrorMessage esc err,
                  Timestamp = zeroTime\<rparr>"

text \<open>
  \<open>buildHeartbeat\<close>: \<open>at\<close> is the string \<open>time.Now().UTC().Format(time.RFC3339Nano)\<close>, an
  input. \<open>runTick\<close> is the ticker branch of the loop in \<open>run\<close>.
\<close>

definition buildHeartbeat :: "(string \<Rightarrow> bytes) \<Rightarrow> string \<Rightarrow> bytes" where
  "buildHeartbeat esc at =
     marshal esc (JObject
       [(''jsonrpc'', JString ''2.0''),
        (''method'', JString ''mcp-proxy/heartbeat''),
        (''params'', JObject [(''at'', JString at)])])"

definition runTick :: "(string \<Rightarrow> bytes) \<Rightarrow> session \<Rightarrow> string \<Rightarrow> string \<Rightarrow> int \<Rightarrow> session" where
  "runTick esc s at uuid now =
     (if store s \<noteq> None then storeAndBroadcast s (buildHeartbeat esc at) uuid now else s)"

text \<open>
  The case in which \<open>handleMessage\<close> cannot complete at once: the message carries the id
  of a pending request whose channel slot is already taken.
\<close>

definition slotTaken :: "unmarshaler \<Rightarrow> session \<Rightarrow> bytes \<Rightarrow> bool" where
  "slotTaken u s raw =
     (case u raw of
        None \<Rightarrow> False
      | Some envelope \<Rightarrow>
          (case envelope ''id'' of
             None \<Rightarrow> False
           | Some idRaw \<Rightarrow>
               (case pending s idRaw of None \<Rightarrow> False | Some ch \<Rightarrow> chans s ch \<noteq> [])))"

text \<open>The event that \<open>storeAndBroadcast\<close> sends to the subscribers.\<close>

definition broadcastEvent :: "session \<Rightarrow> bytes \<Rightarrow> string \<Rightarrow> Event" where
  "broadcastEvent s payload uuid =
     \<lparr>ID = (case store s of None \<Rightarrow> '''' | Some m \<Rightarrow> generateID (sessionID s) uuid),
      StreamID = sessionID s, Payload = payload, Timestamp = zeroTime\<rparr>"

text \<open>The event that \<open>storeAndBroadcast\<close> files in the store, when there is one.\<close>

definition storedEvent :: "session \<Rightarrow> bytes \<Rightarrow> string \<Rightarrow> int \<Rightarrow> Event" where
  "storedEvent s payload uuid now =
     \<lparr>ID = generateID (sessionID s) uuid, StreamID = sessionID s, Payload = payload,
      Timestamp = now\<rparr>"

text \<open>A session with a store and two subscribers, one of them full, and a pending request.\<close>

definition demo_session :: session where
  "demo_session =
     (newSession ''s1'' (NewClient\<lparr>stdin := True, cmd := Some True\<rparr>) (Some NewMemory) True)
       \<lparr>subs := [\<lparr>cap = 2, buf = []\<rparr>, \<lparr>cap = 0, buf = []\<rparr>],
        pending := [''7'' \<mapsto> 0], nextChan := 1\<rparr>"

text \<open>A decoder for the witnesses: it knows three messages.\<close>

definition demo_unmarshal :: unmarshaler where
  \<open>demo_unmarshal raw =
     (if raw = ''{"id":7,"result":1}'' then Some [''id'' \<mapsto> ''7'', ''result'' \<mapsto> ''1'']
      else if raw = ''{"id":7,"method":"x"}'' then Some [''id'' \<mapsto> ''7'', ''method'' \<mapsto> ''"x"'']
      else if raw = ''{"method":"n"}'' then Some [''method'' \<mapsto> ''"n"'']
      else None)\<close>

section \<open>Session: properties of the inbound path\<close>

lemma storeAndBroadcast_store:
  "store (storeAndBroadcast s payload uuid now) =
     map_option (\<lambda>m. AList.update (generateID (sessionID s) uuid) (storedEvent s payload uuid now) m)
       (store s)"
  by (simp add: storeAndBroadcast_def broadcast_def Store_def storedEvent_def Let_def
      split: option.splits)

lemma storeAndBroadcast_subs:
  "subs (storeAndBroadcast s payload uuid now) =
     map (trySend (broadcastEvent s payload uuid)) (subs s)"
  by (simp add: storeAndBroadcast_def broadcast_def Store_def broadcastEvent_def Let_def
      split: option.splits)

lemma storeAndBroadcast_other:
  "pending (storeAndBroadcast s payload uuid now) = pending s"
  "chans (storeAndBroadcast s payload uuid now) = chans s"
  "parked (storeAndBroadcast s payload uuid now) = parked s"
  "nextChan (storeAndBroadcast s payload uuid now) = nextChan s"
  "sessionID (storeAndBroadcast s payload uuid now) = sessionID s"
  "transport (storeAndBroadcast s payload uuid now) = transport s"
  by (simp_all add: storeAndBroadcast_def broadcast_def Store_def Let_def split: option.splits)

lemma handleMessage_parks:
  "slotTaken u s raw \<Longrightarrow>
   \<exists>ch. handleMessage u s raw uuid now = s\<lparr>parked := Some (ch, raw, uuid, now)\<rparr>"
  by (auto simp: slotTaken_def handleMessage_def split: option.splits)

lemma handleMessage_completes:
  "\<not> slotTaken u s raw \<Longrightarrow>
   \<exists>s0. handleMessage u s raw uuid now = storeAndBroadcast s0 raw uuid now \<and>
        store s0 = store s \<and> subs s0 = subs s \<and> sessionID s0 = sessionID s \<and>
        parked s0 = parked s \<and> pending s0 = pending s \<and>
        (\<forall>envelope k ch. u raw = Some envelope \<and> envelope ''id'' = Some k \<and> pending s k = Some ch
           \<longrightarrow> chans s0 ch = [raw])"
  by (auto simp: slotTaken_def handleMessage_def split: option.splits)

text \<open>
  What \<open>handleMessage\<close> does with one message. Let the transport's reader not be parked.
  If the message does not hit a taken channel slot, \<open>handleMessage\<close> completes: the store,
  when configured, gets the event with the message as payload filed under the new event
  id, every subscriber channel is offered the event (it is appended where there is
  room), and when the id of the message matches a pending request the message is in that
  request's channel as well. If the slot is taken, the call parks in the send and
  changes nothing else; only if the request then receives from its channel does the
  parked call resume and store and broadcast the message.
\<close>

lemma handleMessage_stores_and_broadcasts:
  assumes "parked s = None"
  shows "(\<not> slotTaken u s raw \<longrightarrow>
            parked (handleMessage u s raw uuid now) = None \<and>
            store (handleMessage u s raw uuid now) =
              map_option (AList.update (generateID (sessionID s) uuid)
                            (storedEvent s raw uuid now)) (store s) \<and>
            subs (handleMessage u s raw uuid now) =
              map (trySend (broadcastEvent s raw uuid)) (subs s) \<and>
            (\<forall>envelope k ch.
               u raw = Some envelope \<and> envelope ''id'' = Some k \<and> pending s k = Some ch \<longrightarrow>
               chans (handleMessage u s raw uuid now) ch = [raw])) \<and>
         (slotTaken u s raw \<longrightarrow>
            (\<exists>ch. handleMessage u s raw uuid now = s\<lparr>parked := Some (ch, raw, uuid, now)\<rparr> \<and>
                  chans s ch \<noteq> [] \<and>
                  store (snd (chanRecv (handleMessage u s raw uuid now) ch)) =
                    map_option (AList.update (generateID (sessionID s) uuid)
                                  (storedEvent s raw uuid now)) (store s) \<and>
                  subs (snd (chanRecv (handleMessage u s raw uuid now) ch)) =
                    map (trySend (broadcastEvent s raw uuid)) (subs s) \<and>
                  chans (snd (chanRecv (handleMessage u s raw uuid now) ch)) ch = [raw] \<and>
                  parked (snd (chanRecv (handleMessage u s raw uuid now) ch)) = None))"
proof (intro conjI impI)
  assume n: "\<not> slotTaken u s raw"
  from handleMessage_completes[OF n, of uuid now] obtain s0 where
    h: "handleMessage u s raw uuid now = storeAndBroadcast s0 raw uuid now"
    and e: "store s0 = store s" "subs s0 = subs s" "sessionID s0 = sessionID s"
      "parked s0 = parked s" "pending s0 = pending s"
    and c: "\<forall>envelope k ch. u raw = Some envelope \<and> envelope ''id'' = Some k \<and> pending s k = Some ch
           \<longrightarrow> chans s0 ch = [raw]"
    by blast
  show "parked (handleMessage u s raw uuid now) = None"
    by (simp add: h storeAndBroadcast_other e assms)
  show "store (handleMessage u s raw uuid now) =
          map_option (AList.update (generateID (sessionID s) uuid)
                        (storedEvent s raw uuid now)) (store s)"
    by (simp add: h storeAndBroadcast_store e storedEvent_def)
  show "subs (handleMessage u s raw uuid now) =
          map (trySend (broadcastEvent s raw uuid)) (subs s)"
    by (simp add: h storeAndBroadcast_subs e broadcastEvent_def cong: option.case_cong)
  show "\<forall>envelope k ch.
          u raw = Some envelope \<and> envelope ''id'' = Some k \<and> pending s k = Some ch \<longrightarrow>
          chans (handleMessage u s raw uuid now) ch = [raw]"
    using c by (simp add: h storeAndBroadcast_other)
next
  assume t: "slotTaken u s raw"
  then obtain envelope k ch where
    m: "u raw = Some envelope" "envelope ''id'' = Some k" "pending s k = Some ch" "chans s ch \<noteq> []"
    by (auto simp: slotTaken_def split: option.splits)
  then have h: "handleMessage u s raw uuid now = s\<lparr>parked := Some (ch, raw, uuid, now)\<rparr>"
    by (simp add: handleMessage_def)
  have r: "snd (chanRecv (s\<lparr>parked := Some (ch, raw, uuid, now)\<rparr>) ch) =
        storeAndBroadcast (s\<lparr>chans := (chans s)(ch := [raw]), parked := None\<rparr>) raw uuid now"
    by (simp add: chanRecv_def Let_def)
  show "\<exists>ch. handleMessage u s raw uuid now = s\<lparr>parked := Some (ch, raw, uuid, now)\<rparr> \<and>
             chans s ch \<noteq> [] \<and>
             store (snd (chanRecv (handleMessage u s raw uuid now) ch)) =
               map_option (AList.update (generateID (sessionID s) uuid)
                             (storedEvent s raw uuid now)) (store s) \<and>
             subs (snd (chanRecv (handleMessage u s raw uuid now) ch)) =
               map (trySend (broadcastEvent s raw uuid)) (subs s) \<and>
             chans (snd (chanRecv (handleMessage u s raw uuid now) ch)) ch = [raw] \<and>
             parked (snd (chanRecv (handleMessage u s raw uuid now) ch)) = None"
    apply (rule exI[of _ ch])
    unfolding h r
    using m(4)
    by (simp add: storeAndBroadcast_store storeAndBroadcast_subs storeAndBroadcast_other
        storedEvent_def broadcastEvent_def cong: option.case_cong)
qed

lemmas session_eval =
  demo_session_def newSession_def NewClient_def OnClose_def NewMemory_def demo_unmarshal_def
  handleMessage_def storeAndBroadcast_def broadcast_def trySend_def Store_def generateID_def
  zeroTime_def chanRecv_def Let_def

lemma handleMessage_stores_and_broadcasts_example:
  \<open>parked demo_session = None \<and>
   \<not> slotTaken demo_unmarshal demo_session ''{"id":7,"result":1}'' \<and>
   store (handleMessage demo_unmarshal demo_session ''{"id":7,"result":1}'' ''u1'' 5) =
     Some [(''s1_u1'', \<lparr>ID = ''s1_u1'', StreamID = ''s1'', Payload = ''{"id":7,"result":1}'',
                        Timestamp = 5\<rparr>)] \<and>
   subs (handleMessage demo_unmarshal demo_session ''{"id":7,"result":1}'' ''u1'' 5) =
     [\<lparr>cap = 2, buf = [\<lparr>ID = ''s1_u1'', StreamID = ''s1'', Payload = ''{"id":7,"result":1}'',
                          Timestamp = 0\<rparr>]\<rparr>,
      \<lparr>cap = 0, buf = []\<rparr>] \<and>
   chans (handleMessage demo_unmarshal demo_session ''{"id":7,"result":1}'' ''u1'' 5) 0 =
     [''{"id":7,"result":1}''] \<and>
   slotTaken demo_unmarshal
     (handleMessage demo_unmarshal demo_session ''{"id":7,"result":1}'' ''u1'' 5)
     ''{"id":7,"method":"x"}''\<close>
proof -
  have p: "parked demo_session = None"
    by (simp add: session_eval)
  have n: \<open>\<not> slotTaken demo_unmarshal demo_session ''{"id":7,"result":1}''\<close>
    by (simp add: slotTaken_def session_eval)
  have m: \<open>demo_unmarshal ''{"id":7,"result":1}'' = Some [''id'' \<mapsto> ''7'', ''result'' \<mapsto> ''1'']\<close>
    \<open>[''id'' \<mapsto> ''7'', ''result'' \<mapsto> ''1''] ''id'' = Some ''7''\<close>
    \<open>pending demo_session ''7'' = Some 0\<close>
    by (simp_all add: session_eval)
  have se: \<open>storedEvent demo_session ''{"id":7,"result":1}'' ''u1'' 5 =
      \<lparr>ID = ''s1_u1'', StreamID = ''s1'', Payload = ''{"id":7,"result":1}'', Timestamp = 5\<rparr>\<close>
    by (simp add: storedEvent_def session_eval)
  have be: \<open>broadcastEvent demo_session ''{"id":7,"result":1}'' ''u1'' =
      \<lparr>ID = ''s1_u1'', StreamID = ''s1'', Payload = ''{"id":7,"result":1}'', Timestamp = 0\<rparr>\<close>
    by (simp add: broadcastEvent_def session_eval)
  have st: "store demo_session = Some []" "generateID (sessionID demo_session) ''u1'' = ''s1_u1''"
    "subs demo_session = [\<lparr>cap = 2, buf = []\<rparr>, \<lparr>cap = 0, buf = []\<rparr>]"
    by (simp_all add: session_eval)
  note t = handleMessage_stores_and_broadcasts
      [OF p, of demo_unmarshal \<open>''{"id":7,"result":1}''\<close> "''u1''" 5]
  from t n have
    a: \<open>store (handleMessage demo_unmarshal demo_session ''{"id":7,"result":1}'' ''u1'' 5) =
        Some [(''s1_u1'', \<lparr>ID = ''s1_u1'', StreamID = ''s1'',
                 Payload = ''{"id":7,"result":1}'', Timestamp = 5\<rparr>)]\<close>
    unfolding se st by simp
  from t n have
    b: \<open>subs (handleMessage demo_unmarshal demo_session ''{"id":7,"result":1}'' ''u1'' 5) =
     [\<lparr>cap = 2, buf = [\<lparr>ID = ''s1_u1'', StreamID = ''s1'', Payload = ''{"id":7,"result":1}'',
                          Timestamp = 0\<rparr>]\<rparr>,
      \<lparr>cap = 0, buf = []\<rparr>]\<close>
    unfolding be st by (simp add: trySend_def)
  from t n m have
    c: \<open>chans (handleMessage demo_unmarshal demo_session ''{"id":7,"result":1}'' ''u1'' 5) 0 =
     [''{"id":7,"result":1}'']\<close>
    by blast
  have d: \<open>slotTaken demo_unmarshal
     (handleMessage demo_unmarshal demo_session ''{"id":7,"result":1}'' ''u1'' 5)
     ''{"id":7,"method":"x"}''\<close>
    by (simp add: slotTaken_def session_eval)
  from p n a b c d show ?thesis by blast
qed

section \<open>Session: the error and heartbeat notifications\<close>

lemma buildErrorMessage_text:
  \<open>buildErrorMessage esc err =
     ''{"jsonrpc":"2.0","method":"mcp-proxy/error","params":{"message":''
       @ encodeString esc err @ ''}}''\<close>
  by (simp add: buildErrorMessage_def encodeString_def htmlSafe_def)

lemma buildHeartbeat_text:
  \<open>buildHeartbeat esc at =
     ''{"jsonrpc":"2.0","method":"mcp-proxy/heartbeat","params":{"at":''
       @ encodeString esc at @ ''}}''\<close>
  by (simp add: buildHeartbeat_def encodeString_def htmlSafe_def)

text \<open>
  Claim C5, as the code has it. For every error text reported by the transport, the
  error observer of the session offers every subscriber channel one event (appended
  where there is room) that carries the empty event id, the session's id as stream id,
  and as payload the JSON text
  \<open>{"jsonrpc":"2.0","method":"mcp-proxy/error","params":{"message":<text>}}\<close>, in which
  \<open><text>\<close> is the JSON string literal of the error text: the text between double quotes
  when all its bytes are safe. Nothing else of the session changes.
\<close>

theorem onError_broadcasts_notification:
  \<open>onError esc s err =
     s\<lparr>subs := map (trySend
           \<lparr>ID = '''', StreamID = sessionID s,
            Payload = ''{"jsonrpc":"2.0","method":"mcp-proxy/error","params":{"message":''
                        @ encodeString esc err @ ''}}'',
            Timestamp = zeroTime\<rparr>) (subs s)\<rparr>
   \<and> encodeString esc err = (if list_all htmlSafe err then ''"'' @ err @ ''"'' else esc err)\<close>
  by (simp add: onError_def broadcast_def buildErrorMessage_text encodeString_def)

theorem onError_broadcasts_notification_witness:
  \<open>onError (\<lambda>s. s) demo_session ''boom'' =
     demo_session\<lparr>subs :=
       [\<lparr>cap = 2, buf = [\<lparr>ID = '''', StreamID = ''s1'',
           Payload = ''{"jsonrpc":"2.0","method":"mcp-proxy/error","params":{"message":"boom"}}'',
           Timestamp = 0\<rparr>]\<rparr>,
        \<lparr>cap = 0, buf = []\<rparr>]\<rparr>\<close>
proof -
  have e: \<open>encodeString (\<lambda>s. s) ''boom'' = ''"boom"''\<close>
    by (simp add: encodeString_def htmlSafe_def)
  have st: "sessionID demo_session = ''s1''"
    "subs demo_session = [\<lparr>cap = 2, buf = []\<rparr>, \<lparr>cap = 0, buf = []\<rparr>]"
    by (simp_all add: session_eval)
  show ?thesis
    using onError_broadcasts_notification [of "\<lambda>s. s" demo_session "''boom''"]
    unfolding e st by (simp add: trySend_def zeroTime_def)
qed

text \<open>
  Claim C5 as stated fails on the method name: the notification built for the error text
  \<open>boom\<close> carries the method \<open>mcp-proxy/error\<close>, so it is not the JSON text of the claim.
\<close>

theorem error_method_counterexample:
  \<open>buildErrorMessage (\<lambda>s. s) ''boom''
     = ''{"jsonrpc":"2.0","method":"mcp-proxy/error","params":{"message":"boom"}}'' \<and>
   buildErrorMessage (\<lambda>s. s) ''boom''
     \<noteq> ''{"jsonrpc":"2.0","method":"proxy/error","params":{"message":"boom"}}''\<close>
  by (simp add: buildErrorMessage_text encodeString_def htmlSafe_def)

text \<open>
  Claim C6, as the code has it. On a tick, a session without event store does nothing.
  A session with an event store builds the JSON text
  \<open>{"jsonrpc":"2.0","method":"mcp-proxy/heartbeat","params":{"at":<time>}}\<close>, whose
  \<open>params\<close> object has the single member \<open>at\<close> holding the JSON string literal of the
  formatted current time, files it in the store under a new event id and offers the event
  to every subscriber channel.
\<close>

theorem heartbeat_notification:
  \<open>buildHeartbeat esc at =
     ''{"jsonrpc":"2.0","method":"mcp-proxy/heartbeat","params":{"at":''
        @ encodeString esc at @ ''}}'' \<and>
   encodeString esc at = (if list_all htmlSafe at then ''"'' @ at @ ''"'' else esc at) \<and>
   runTick esc s at uuid now =
     (case store s of
        None \<Rightarrow> s
      | Some m \<Rightarrow>
          s\<lparr>store := Some (AList.update (generateID (sessionID s) uuid)
                             \<lparr>ID = generateID (sessionID s) uuid, StreamID = sessionID s,
                              Payload = buildHeartbeat esc at, Timestamp = now\<rparr> m),
            subs := map (trySend
                     \<lparr>ID = generateID (sessionID s) uuid, StreamID = sessionID s,
                      Payload = buildHeartbeat esc at, Timestamp = zeroTime\<rparr>) (subs s)\<rparr>)\<close>
  by (simp add: buildHeartbeat_text encodeString_def runTick_def storeAndBroadcast_def
      broadcast_def Store_def Let_def split: option.splits)

theorem heartbeat_notification_witness:
  \<open>runTick (\<lambda>s. s) demo_session ''2026-01-02T03:04:05.000000006Z'' ''u1'' 9 =
     demo_session
       \<lparr>store := Some [(''s1_u1'',
            \<lparr>ID = ''s1_u1'', StreamID = ''s1'',
             Payload = ''{"jsonrpc":"2.0","method":"mcp-proxy/heartbeat","params":{"at":"2026-01-02T03:04:05.000000006Z"}}'',
             Timestamp = 9\<rparr>)],
        subs := [\<lparr>cap = 2, buf = [\<lparr>ID = ''s1_u1'', StreamID = ''s1'',
             Payload = ''{"jsonrpc":"2.0","method":"mcp-proxy/heartbeat","params":{"at":"2026-01-02T03:04:05.000000006Z"}}'',
             Timestamp = 0\<rparr>]\<rparr>,
          \<lparr>cap = 0, buf = []\<rparr>]\<rparr>\<close>
proof -
  have e: \<open>encodeString (\<lambda>s. s) ''2026-01-02T03:04:05.000000006Z''
      = ''"2026-01-02T03:04:05.000000006Z"''\<close>
    by (simp add: encodeString_def htmlSafe_def)
  have st: "sessionID demo_session = ''s1''" "store demo_session = Some []"
    "subs demo_session = [\<lparr>cap = 2, buf = []\<rparr>, \<lparr>cap = 0, buf = []\<rparr>]"
    by (simp_all add: session_eval)
  have h: \<open>buildHeartbeat (\<lambda>s. s) ''2026-01-02T03:04:05.000000006Z'' =
     ''{"jsonrpc":"2.0","method":"mcp-proxy/heartbeat","params":{"at":"2026-01-02T03:04:05.000000006Z"}}''\<close>
    unfolding buildHeartbeat_text e by simp
  from heartbeat_notification
    [of "\<lambda>s. s" \<open>''2026-01-02T03:04:05.000000006Z''\<close> demo_session "''u1''" 9]
  have \<open>runTick (\<lambda>s. s) demo_session ''2026-01-02T03:04:05.000000006Z'' ''u1'' 9 =
      demo_session\<lparr>store := Some (AList.update (generateID ''s1'' ''u1'')
                             \<lparr>ID = generateID ''s1'' ''u1'', StreamID = ''s1'',
                              Payload = buildHeartbeat (\<lambda>s. s) ''2026-01-02T03:04:05.000000006Z'', Timestamp = 9\<rparr> []),
            subs := map (trySend
                     \<lparr>ID = generateID ''s1'' ''u1'', StreamID = ''s1'',
                      Payload = buildHeartbeat (\<lambda>s. s) ''2026-01-02T03:04:05.000000006Z'', Timestamp = zeroTime\<rparr>)
                      [\<lparr>cap = 2, buf = []\<rparr>, \<lparr>cap = 0, buf = []\<rparr>]\<rparr>\<close>
    unfolding st by simp
  then show ?thesis
    unfolding h by (simp add: generateID_def trySend_def zeroTime_def)
qed

text \<open>
  Claim C6 as stated fails on the method name: the heartbeat carries the method
  \<open>mcp-proxy/heartbeat\<close>.
\<close>

theorem heartbeat_method_counterexample:
  \<open>buildHeartbeat (\<lambda>s. s) ''2026-01-02T03:04:05.000000006Z''
     = ''{"jsonrpc":"2.0","method":"mcp-proxy/heartbeat","params":{"at":"2026-01-02T03:04:05.000000006Z"}}'' \<and>
   buildHeartbeat (\<lambda>s. s) ''2026-01-02T03:04:05.000000006Z''
     \<noteq> ''{"jsonrpc":"2.0","method":"proxy/heartbeat","params":{"at":"2026-01-02T03:04:05.000000006Z"}}''\<close>
  by (simp add: buildHeartbeat_text encodeString_def htmlSafe_def)

section \<open>Session: request\<close>

text \<open>
  \<open>request\<close> blocks in a \<open>select\<close> until its channel holds a message or its context is
  cancelled. What happens meanwhile is decided outside \<open>request\<close>: the transport's reader
  calls \<open>handleMessage\<close> for every inbound message, and the caller's context may be
  cancelled. These events are an input of the model, in the order in which they occur.
\<close>

datatype sched_event = Inbound bytes string int | CtxCancel

text \<open>
  The inputs of one call: the outcome of the write to the child's standard input;
  the events that occur between the registration of the channel and the \<open>select\<close>; the
  branch the \<open>select\<close> takes when both of its cases are ready at once (Go picks one at
  random); and the events that occur while the \<open>select\<close> waits.
\<close>

record request_env =
  writeOutcome :: write_outcome
  during :: "sched_event list"
  preferCancel :: bool
  after :: "sched_event list"

datatype request_error = InvalidJSON | SendFailed string | Cancelled

text \<open>
  The result of \<open>request\<close>: an error, or the response bytes, or neither (\<open>nil, nil\<close>, for a
  notification).
\<close>

type_synonym request_result = "request_error + bytes option"

definition pendingDelete :: "session \<Rightarrow> bytes \<Rightarrow> session" where
  "pendingDelete s k = s\<lparr>pending := (pending s)(k := None)\<rparr>"

text \<open>
  The events before the \<open>select\<close>. While the reader is parked in a send it handles no
  further message. The flag tells whether the context has been cancelled.
\<close>

fun runEvents :: "unmarshaler \<Rightarrow> session \<Rightarrow> bool \<Rightarrow> sched_event list \<Rightarrow> session \<times> bool" where
  "runEvents u s cancelled [] = (s, cancelled)"
| "runEvents u s cancelled (CtxCancel # evs) = runEvents u s True evs"
| "runEvents u s cancelled (Inbound raw uuid now # evs) =
     (if parked s \<noteq> None then runEvents u s cancelled evs
      else runEvents u (handleMessage u s raw uuid now) cancelled evs)"

text \<open>The branch \<open>case msg := <-ch\<close> of the \<open>select\<close>, with the \<open>Delete\<close> that follows.\<close>

definition receiveResponse :: "session \<Rightarrow> bytes \<Rightarrow> nat \<Rightarrow> request_result \<times> session" where
  "receiveResponse s k ch =
     (let (msg, s') = chanRecv s ch in (Inr (Some msg), pendingDelete s' k))"

text \<open>
  The waiting \<open>select\<close>, entered with an empty channel and a live context: it returns at
  the first event that makes one of its cases ready. When the events run out it waits
  forever, which is the result \<open>None\<close>.
\<close>

fun awaitSelect ::
  "unmarshaler \<Rightarrow> session \<Rightarrow> bytes \<Rightarrow> nat \<Rightarrow> sched_event list \<Rightarrow> (request_result \<times> session) option"
where
  "awaitSelect u s k ch [] = None"
| "awaitSelect u s k ch (CtxCancel # evs) = Some (Inl Cancelled, pendingDelete s k)"
| "awaitSelect u s k ch (Inbound raw uuid now # evs) =
     (if parked s \<noteq> None then awaitSelect u s k ch evs
      else (let s' = handleMessage u s raw uuid now in
            if chans s' ch \<noteq> [] then Some (receiveResponse s' k ch)
            else awaitSelect u s' k ch evs))"

text \<open>
  The two statements of \<open>request\<close> that register the delivery channel:
  \<open>ch = make(chan mcp.Message, 1)\<close> and \<open>s.pending.Store(string(idRaw), ch)\<close>.
\<close>

definition register :: "session \<Rightarrow> bytes \<Rightarrow> session" where
  "register s idRaw =
     s\<lparr>pending := (pending s)(idRaw \<mapsto> nextChan s),
       chans := (chans s)(nextChan s := []),
       nextChan := Suc (nextChan s)\<rparr>"

text \<open>
  \<open>session.request\<close>. The result \<open>None\<close> is a call that does not return: the write to the
  child blocks without end, or the \<open>select\<close> waits without end.
\<close>

definition request ::
  "unmarshaler \<Rightarrow> session \<Rightarrow> bytes \<Rightarrow> request_env \<Rightarrow> (request_result \<times> session) option"
where
  "request u s payload env =
     (case u payload of
        None \<Rightarrow> Some (Inl InvalidJSON, s)
      | Some envelope \<Rightarrow>
          (let ch = nextChan s;
               s1 = (case envelope ''id'' of None \<Rightarrow> s | Some idRaw \<Rightarrow> register s idRaw)
           in case Client_Send (transport s1) payload (writeOutcome env) of
                None \<Rightarrow> None
              | Some (c, err) \<Rightarrow>
                  (let (s2, cancelled) = runEvents u (s1\<lparr>transport := c\<rparr>) False (during env)
                   in case err of
                        Some e \<Rightarrow>
                          Some (Inl (SendFailed e),
                                case envelope ''id'' of
                                  None \<Rightarrow> s2
                                | Some idRaw \<Rightarrow> pendingDelete s2 idRaw)
                      | None \<Rightarrow>
                          (case envelope ''id'' of
                             None \<Rightarrow> Some (Inr None, s2)
                           | Some idRaw \<Rightarrow>
                               if chans s2 ch \<noteq> [] \<and> \<not> (cancelled \<and> preferCancel env)
                               then Some (receiveResponse s2 idRaw ch)
                               else if cancelled then Some (Inl Cancelled, pendingDelete s2 idRaw)
                               else awaitSelect u s2 idRaw ch (after env)))))"

text \<open>The raw id token of a message, as \<open>handleMessage\<close> reads it.\<close>

definition rawID :: "unmarshaler \<Rightarrow> bytes \<Rightarrow> bytes option" where
  "rawID u raw = (case u raw of None \<Rightarrow> None | Some envelope \<Rightarrow> envelope ''id'')"

text \<open>An event that delivers a message with the raw id token \<open>k\<close>.\<close>

definition answers :: "unmarshaler \<Rightarrow> bytes \<Rightarrow> sched_event \<Rightarrow> bool" where
  "answers u k ev =
     (case ev of Inbound raw uuid now \<Rightarrow> rawID u raw = Some k | CtxCancel \<Rightarrow> False)"

text \<open>
  The transport's reader is not parked in a send after the events \<open>evs\<close> that follow the
  registration of the channel for \<open>k\<close>, so that it handles the next inbound message.
\<close>

definition readerFree :: "unmarshaler \<Rightarrow> session \<Rightarrow> bytes \<Rightarrow> sched_event list \<Rightarrow> bool" where
  "readerFree u s k evs = (parked (fst (runEvents u (register s k) False evs)) = None)"

text \<open>An event that can end the wait of the request for \<open>k\<close>: such a message, or a cancellation.\<close>

definition decisive :: "unmarshaler \<Rightarrow> bytes \<Rightarrow> sched_event \<Rightarrow> bool" where
  "decisive u k ev =
     (case ev of Inbound raw uuid now \<Rightarrow> rawID u raw = Some k | CtxCancel \<Rightarrow> True)"

text \<open>
  What \<open>transport.Send\<close> returns to \<open>request\<close>: \<open>None\<close> when it does not return, \<open>Some None\<close>
  for success, \<open>Some (Some e)\<close> for the error \<open>e\<close>.
\<close>

definition sendResult :: "session \<Rightarrow> bytes \<Rightarrow> request_env \<Rightarrow> string option option" where
  "sendResult s payload env =
     map_option snd (Client_Send (transport s) payload (writeOutcome env))"

text \<open>
  Channel handles in use lie below \<open>nextChan\<close>, so that the next \<open>make\<close> returns a channel
  that nothing refers to yet.
\<close>

definition wf_session :: "session \<Rightarrow> bool" where
  "wf_session s =
     ((\<forall>k c. pending s k = Some c \<longrightarrow> c < nextChan s) \<and>
      (\<forall>c raw uuid now. parked s = Some (c, raw, uuid, now) \<longrightarrow> c < nextChan s))"

text \<open>
  While a request with id token \<open>k\<close> and channel \<open>ch\<close> is in flight: only \<open>k\<close> leads to \<open>ch\<close>,
  and every message in \<open>ch\<close> or parked in a send on \<open>ch\<close> carries the id token \<open>k\<close>.
\<close>

definition in_flight :: "unmarshaler \<Rightarrow> bytes \<Rightarrow> nat \<Rightarrow> session \<Rightarrow> bool" where
  "in_flight u k ch s =
     ((\<forall>k'. pending s k' = Some ch \<longrightarrow> k' = k) \<and>
      (\<forall>m \<in> set (chans s ch). rawID u m = Some k) \<and>
      (\<forall>raw uuid now. parked s = Some (ch, raw, uuid, now) \<longrightarrow> rawID u raw = Some k))"

section \<open>Session: properties of request\<close>

lemma in_flight_storeAndBroadcast:
  "in_flight u k ch (storeAndBroadcast s raw uuid now) = in_flight u k ch s"
  by (simp add: in_flight_def storeAndBroadcast_other)

lemma in_flight_handleMessage:
  assumes "in_flight u k ch s"
  shows "in_flight u k ch (handleMessage u s raw uuid now)"
proof (cases "u raw")
  case None
  then show ?thesis using assms by (simp add: handleMessage_def in_flight_storeAndBroadcast)
next
  case (Some envelope)
  show ?thesis
  proof (cases "envelope ''id''")
    case None
    then show ?thesis using assms Some by (simp add: handleMessage_def in_flight_storeAndBroadcast)
  next
    case (Some idRaw)
    note id = Some
    show ?thesis
    proof (cases "pending s idRaw")
      case None
      then show ?thesis using assms id \<open>u raw = Some envelope\<close>
        by (simp add: handleMessage_def in_flight_storeAndBroadcast)
    next
      case (Some c)
      have r: "rawID u raw = Some idRaw"
        using id \<open>u raw = Some envelope\<close> by (simp add: rawID_def)
      have ck: "c = ch \<Longrightarrow> idRaw = k" using assms Some by (auto simp: in_flight_def)
      show ?thesis
      proof (cases "chans s c = []")
        case True
        have "in_flight u k ch (s\<lparr>chans := (chans s)(c := [raw])\<rparr>)"
          using assms r ck by (auto simp: in_flight_def)
        then show ?thesis using Some id \<open>u raw = Some envelope\<close> True
          by (simp add: handleMessage_def in_flight_storeAndBroadcast)
      next
        case False
        have "in_flight u k ch (s\<lparr>parked := Some (c, raw, uuid, now)\<rparr>)"
          using assms r ck by (auto simp: in_flight_def)
        then show ?thesis using Some id \<open>u raw = Some envelope\<close> False
          by (simp add: handleMessage_def)
      qed
    qed
  qed
qed

lemma in_flight_runEvents:
  "in_flight u k ch s \<Longrightarrow> in_flight u k ch (fst (runEvents u s c evs))"
proof (induction evs arbitrary: s c)
  case Nil
  then show ?case by simp
next
  case (Cons e evs)
  then show ?case
    by (cases e) (auto simp: in_flight_handleMessage)
qed

lemma pending_handleMessage: "pending (handleMessage u s raw uuid now) = pending s"
  by (simp add: handleMessage_def storeAndBroadcast_other split: option.splits)

lemma pending_runEvents: "pending (fst (runEvents u s c evs)) = pending s"
proof (induction evs arbitrary: s c)
  case Nil
  then show ?case by simp
next
  case (Cons e evs)
  then show ?case by (cases e) (auto simp: pending_handleMessage)
qed

lemma cancelled_runEvents:
  "snd (runEvents u s c evs) = (c \<or> CtxCancel \<in> set evs)"
proof (induction evs arbitrary: s c)
  case Nil
  then show ?case by simp
next
  case (Cons e evs)
  then show ?case by (cases e) auto
qed

lemma pending_chanRecv: "pending (snd (chanRecv s ch)) = pending s"
  by (simp add: chanRecv_def Let_def storeAndBroadcast_other split: option.splits)

lemma receiveResponse_ok:
  assumes "in_flight u k ch s" "chans s ch \<noteq> []"
  shows "\<exists>msg s'. receiveResponse s k ch = (Inr (Some msg), s') \<and> pending s' k = None
           \<and> rawID u msg = Some k"
proof -
  have "hd (chans s ch) \<in> set (chans s ch)" using assms(2) by simp
  then have "rawID u (hd (chans s ch)) = Some k" using assms(1) by (simp add: in_flight_def)
  moreover have "fst (chanRecv s ch) = hd (chans s ch)" by (simp add: chanRecv_def Let_def)
  ultimately show ?thesis
    using pending_chanRecv[of s ch]
    by (simp add: receiveResponse_def pendingDelete_def split_beta)
qed

lemma awaitSelect_ok:
  assumes "in_flight u k ch s" "awaitSelect u s k ch evs = Some (res, s')"
  shows "pending s' k = None \<and>
         (res = Inl Cancelled \<or> (\<exists>msg. res = Inr (Some msg) \<and> rawID u msg = Some k))"
  using assms
proof (induction evs arbitrary: s)
  case Nil
  then show ?case by simp
next
  case (Cons e evs)
  show ?case
  proof (cases e)
    case CtxCancel
    then show ?thesis using Cons.prems by (auto simp: pendingDelete_def)
  next
    case (Inbound raw uuid now)
    show ?thesis
    proof (cases "parked s \<noteq> None")
      case True
      then show ?thesis using Cons Inbound by simp
    next
      case False
      let ?s = "handleMessage u s raw uuid now"
      have inv: "in_flight u k ch ?s" by (rule in_flight_handleMessage[OF Cons.prems(1)])
      show ?thesis
      proof (cases "chans ?s ch \<noteq> []")
        case True
        then have "receiveResponse ?s k ch = (res, s')"
          using Cons.prems(2) Inbound False by (simp add: Let_def)
        with receiveResponse_ok[OF inv True] show ?thesis by auto
      next
        case F2: False
        then have "awaitSelect u ?s k ch evs = Some (res, s')"
          using Cons.prems(2) Inbound False by (simp add: Let_def)
        with Cons.IH[OF inv] show ?thesis by blast
      qed
    qed
  qed
qed

lemma awaitSelect_cancel:
  "CtxCancel \<in> set evs \<Longrightarrow> awaitSelect u s k ch evs \<noteq> None"
proof (induction evs arbitrary: s)
  case Nil
  then show ?case by simp
next
  case (Cons e evs)
  then show ?case by (cases e) (auto simp: Let_def)
qed

lemma awaitSelect_cancelled:
  "awaitSelect u s k ch evs = Some (Inl Cancelled, s') \<Longrightarrow> CtxCancel \<in> set evs"
proof (induction evs arbitrary: s)
  case Nil
  then show ?case by simp
next
  case (Cons e evs)
  then show ?case
    by (cases e) (auto simp: Let_def receiveResponse_def split_beta split: if_splits)
qed

lemma in_flight_registered:
  assumes "wf_session s"
  shows "in_flight u k (nextChan s) ((register s k)\<lparr>transport := c\<rparr>)"
  using assms by (auto simp: register_def in_flight_def wf_session_def)

lemma handleMessage_transport:
  "handleMessage u (s\<lparr>transport := c\<rparr>) raw uuid now =
     (handleMessage u s raw uuid now)\<lparr>transport := c\<rparr>"
  by (simp add: handleMessage_def storeAndBroadcast_def broadcast_def Store_def Let_def split_beta
      split: option.splits)

lemma runEvents_transport:
  "fst (runEvents u (s\<lparr>transport := c\<rparr>) b evs) = (fst (runEvents u s b evs))\<lparr>transport := c\<rparr>"
proof (induction evs arbitrary: s b)
  case Nil
  then show ?case by simp
next
  case (Cons e evs)
  then show ?case by (cases e) (simp_all add: handleMessage_transport)
qed

lemma runEvents_append:
  "runEvents u s b (xs @ ys) =
     runEvents u (fst (runEvents u s b xs)) (snd (runEvents u s b xs)) ys"
  by (induction u s b xs rule: runEvents.induct) simp_all

lemma runEvents_flag: "fst (runEvents u s b evs) = fst (runEvents u s b' evs)"
proof (induction evs arbitrary: s b b')
  case Nil
  then show ?case by simp
next
  case (Cons e evs)
  show ?case by (cases e) (simp_all add: Cons.IH[of _ b b'])
qed

lemma runEvents_append_fst:
  "fst (runEvents u s False (xs @ ys)) = fst (runEvents u (fst (runEvents u s False xs)) False ys)"
  unfolding runEvents_append by (rule runEvents_flag)

lemma chans_handleMessage_keep:
  assumes "in_flight u k ch s" and "chans s ch \<noteq> [] \<or> rawID u raw \<noteq> Some k"
  shows "chans (handleMessage u s raw uuid now) ch = chans s ch"
  using assms
  by (auto simp: handleMessage_def in_flight_def rawID_def storeAndBroadcast_other
      split: option.splits)

lemma chans_runEvents_keep:
  assumes "in_flight u k ch s" and "chans s ch \<noteq> [] \<or> (\<forall>ev\<in>set evs. \<not> answers u k ev)"
  shows "chans (fst (runEvents u s b evs)) ch = chans s ch"
  using assms
proof (induction evs arbitrary: s b)
  case Nil
  then show ?case by simp
next
  case (Cons e evs)
  have rest: "chans s ch \<noteq> [] \<or> (\<forall>ev\<in>set evs. \<not> answers u k ev)"
    using Cons.prems(2) by auto
  show ?case
  proof (cases e)
    case CtxCancel
    then show ?thesis using Cons.IH[OF Cons.prems(1) rest] by simp
  next
    case (Inbound raw uuid now)
    show ?thesis
    proof (cases "parked s \<noteq> None")
      case True
      then show ?thesis using Cons.IH[OF Cons.prems(1) rest] Inbound by simp
    next
      case False
      let ?s = "handleMessage u s raw uuid now"
      have inv: "in_flight u k ch ?s" by (rule in_flight_handleMessage[OF Cons.prems(1)])
      have "chans s ch \<noteq> [] \<or> rawID u raw \<noteq> Some k"
        using Cons.prems(2) Inbound by (auto simp: answers_def)
      then have keep: "chans ?s ch = chans s ch"
        by (rule chans_handleMessage_keep[OF Cons.prems(1)])
      have "chans ?s ch \<noteq> [] \<or> (\<forall>ev\<in>set evs. \<not> answers u k ev)"
        using rest keep by simp
      from Cons.IH[OF inv this] show ?thesis using Inbound False keep by simp
    qed
  qed
qed

lemma handleMessage_delivers:
  assumes "pending s k = Some ch" "chans s ch = []" "rawID u raw = Some k"
  shows "chans (handleMessage u s raw uuid now) ch = [raw]"
  using assms
  by (auto simp: handleMessage_def rawID_def storeAndBroadcast_other split: option.splits)

lemma awaitSelect_quiet:
  assumes "in_flight u k ch s" "chans s ch = []" "\<forall>ev\<in>set pre. \<not> decisive u k ev"
  shows "awaitSelect u s k ch (pre @ rest) =
           awaitSelect u (fst (runEvents u s False pre)) k ch rest"
  using assms
proof (induction pre arbitrary: s)
  case Nil
  then show ?case by simp
next
  case (Cons e pre)
  have rest: "\<forall>ev\<in>set pre. \<not> decisive u k ev" using Cons.prems(3) by simp
  show ?case
  proof (cases e)
    case CtxCancel
    then show ?thesis using Cons.prems(3) by (simp add: decisive_def)
  next
    case (Inbound raw uuid now)
    show ?thesis
    proof (cases "parked s \<noteq> None")
      case True
      then show ?thesis using Cons.IH[OF Cons.prems(1,2) rest] Inbound by simp
    next
      case False
      let ?s = "handleMessage u s raw uuid now"
      have inv: "in_flight u k ch ?s" by (rule in_flight_handleMessage[OF Cons.prems(1)])
      have "rawID u raw \<noteq> Some k" using Cons.prems(3) Inbound by (simp add: decisive_def)
      then have "chans ?s ch = chans s ch"
        using chans_handleMessage_keep[OF Cons.prems(1)] by blast
      then have e: "chans ?s ch = []" using Cons.prems(2) by simp
      from Cons.IH[OF inv e rest] show ?thesis using Inbound False e by (simp add: Let_def)
    qed
  qed
qed

lemma receiveResponse_fst: "fst (receiveResponse s k ch) = Inr (Some (hd (chans s ch)))"
  by (simp add: receiveResponse_def chanRecv_def Let_def split_beta)

lemma not_decisive_answers: "\<not> decisive u k ev \<Longrightarrow> \<not> answers u k ev"
  by (cases ev) (simp_all add: decisive_def answers_def)

lemma not_decisive_cancel: "\<forall>ev\<in>set evs. \<not> decisive u k ev \<Longrightarrow> CtxCancel \<notin> set evs"
  by (auto simp: decisive_def)

lemma request_unfold:
  assumes "u payload = Some envelope" and "envelope ''id'' = Some k"
    and "Client_Send (transport s) payload (writeOutcome env) = Some (c, err)"
    and "s2 = fst (runEvents u ((register s k)\<lparr>transport := c\<rparr>) False (during env))"
  shows "request u s payload env =
     (case err of
        Some e \<Rightarrow> Some (Inl (SendFailed e), pendingDelete s2 k)
      | None \<Rightarrow>
          if chans s2 (nextChan s) \<noteq> [] \<and> \<not> (CtxCancel \<in> set (during env) \<and> preferCancel env)
          then Some (receiveResponse s2 k (nextChan s))
          else if CtxCancel \<in> set (during env) then Some (Inl Cancelled, pendingDelete s2 k)
          else awaitSelect u s2 k (nextChan s) (after env))"
proof -
  have t: "transport (register s k) = transport s" by (simp add: register_def)
  show ?thesis
    unfolding request_def assms(4)
    by (simp add: assms(1,2,3) t Let_def split_beta cancelled_runEvents
        cong: option.case_cong if_cong)
qed

text \<open>
  Claim C1. Let the payload decode to an object with the id token \<open>k\<close>, in a session
  whose channel handles are well formed. Whenever \<open>request\<close> returns, the pending map
  has no entry for \<open>k\<close> and exactly one of three results is returned: the error of a
  failed send; the cancellation of the context, after a successful send; or, after a
  successful send, a message whose top-level raw id token is \<open>k\<close>. Which one, and
  whether the call returns at all, is decided as follows. If the write to the child
  blocks without end, the call never returns. If the send fails, its error is returned.
  After a successful send: the call returns whenever the context is cancelled at some
  point; a message with the id token \<open>k\<close> that arrives before the
  \<open>select\<close>, the first of its kind and handled by the reader, is returned (unless the
  context is cancelled as well by then and the \<open>select\<close> picks that case); such a message
  arriving while the \<open>select\<close> waits, before any cancellation, is returned; a cancellation
  before the \<open>select\<close> is returned when no message with the id token \<open>k\<close> has arrived (or
  the \<open>select\<close> picks that case); a cancellation while the \<open>select\<close> waits, before any such
  message, is returned; and as long as neither occurs, the call waits.
\<close>

theorem request_outcomes:
  assumes "wf_session s" and "u payload = Some envelope" and "envelope ''id'' = Some k"
  shows
    "(\<forall>res s'. request u s payload env = Some (res, s') \<longrightarrow>
        pending s' k = None \<and>
        ((\<exists>e. res = Inl (SendFailed e) \<and> sendResult s payload env = Some (Some e)) \<or>
         (res = Inl Cancelled \<and> sendResult s payload env = Some None \<and>
            CtxCancel \<in> set (during env @ after env)) \<or>
         (\<exists>msg. res = Inr (Some msg) \<and> rawID u msg = Some k \<and>
            sendResult s payload env = Some None))) \<and>
     (sendResult s payload env = None \<longrightarrow> request u s payload env = None) \<and>
     (\<forall>e. sendResult s payload env = Some (Some e) \<longrightarrow>
          (\<exists>s'. request u s payload env = Some (Inl (SendFailed e), s'))) \<and>
     (sendResult s payload env = Some None \<longrightarrow>
        (CtxCancel \<in> set (during env @ after env) \<longrightarrow> request u s payload env \<noteq> None) \<and>
        (\<forall>pre raw uuid now post.
            during env = pre @ Inbound raw uuid now # post \<and> rawID u raw = Some k \<and>
            (\<forall>ev\<in>set pre. \<not> answers u k ev) \<and> readerFree u s k pre \<and>
            \<not> (preferCancel env \<and> CtxCancel \<in> set (during env)) \<longrightarrow>
            (\<exists>s'. request u s payload env = Some (Inr (Some raw), s'))) \<and>
        (\<forall>pre raw uuid now post.
            after env = pre @ Inbound raw uuid now # post \<and> rawID u raw = Some k \<and>
            (\<forall>ev\<in>set (during env @ pre). \<not> decisive u k ev) \<and>
            readerFree u s k (during env @ pre) \<longrightarrow>
            (\<exists>s'. request u s payload env = Some (Inr (Some raw), s'))) \<and>
        (CtxCancel \<in> set (during env) \<and>
            (preferCancel env \<or> (\<forall>ev\<in>set (during env). \<not> answers u k ev)) \<longrightarrow>
            (\<exists>s'. request u s payload env = Some (Inl Cancelled, s'))) \<and>
        (\<forall>pre post.
            after env = pre @ CtxCancel # post \<and>
            (\<forall>ev\<in>set (during env @ pre). \<not> decisive u k ev) \<longrightarrow>
            (\<exists>s'. request u s payload env = Some (Inl Cancelled, s'))) \<and>
        ((\<forall>ev\<in>set (during env @ after env). \<not> decisive u k ev) \<longrightarrow>
            request u s payload env = None))"
proof (cases "Client_Send (transport s) payload (writeOutcome env)")
  case None
  then have r: "request u s payload env = None"
    by (simp add: request_def assms(2,3) register_def Let_def)
  have sr: "sendResult s payload env = None" using None by (simp add: sendResult_def)
  show ?thesis unfolding r sr by simp
next
  case (Some p)
  obtain c err where p: "p = (c, err)" by (cases p)
  have send: "Client_Send (transport s) payload (writeOutcome env) = Some (c, err)"
    using Some p by simp
  have sr: "sendResult s payload env = Some err" using send by (simp add: sendResult_def)
  define ch where "ch = nextChan s"
  define s1 where "s1 = (register s k)\<lparr>transport := c\<rparr>"
  define s2 where "s2 = fst (runEvents u s1 False (during env))"
  have inv1: "in_flight u k ch s1"
    unfolding s1_def ch_def by (rule in_flight_registered[OF assms(1)])
  have inv2: "in_flight u k ch s2"
    unfolding s2_def by (rule in_flight_runEvents[OF inv1])
  have c1: "chans s1 ch = []" by (simp add: s1_def ch_def register_def)
  have p1: "pending s1 k = Some ch" by (simp add: s1_def ch_def register_def)
  have pend: "pending (fst (runEvents u s1 b evs)) k = Some ch" for b evs
    by (simp add: pending_runEvents p1)
  have free: "parked (fst (runEvents u s1 False evs)) = None" if "readerFree u s k evs" for evs
    using that by (simp add: readerFree_def s1_def runEvents_transport)
  have req: "request u s payload env =
     (case err of
        Some e \<Rightarrow> Some (Inl (SendFailed e), pendingDelete s2 k)
      | None \<Rightarrow>
          if chans s2 ch \<noteq> [] \<and> \<not> (CtxCancel \<in> set (during env) \<and> preferCancel env)
          then Some (receiveResponse s2 k ch)
          else if CtxCancel \<in> set (during env) then Some (Inl Cancelled, pendingDelete s2 k)
          else awaitSelect u s2 k ch (after env))"
    unfolding ch_def s2_def s1_def
    by (rule request_unfold[where u = u and payload = payload and envelope = envelope
          and k = k and s = s and env = env and c = c and err = err, OF assms(2,3) send refl])
  show ?thesis
  proof (cases err)
    case (Some e)
    then have "request u s payload env = Some (Inl (SendFailed e), pendingDelete s2 k)"
      by (simp add: req)
    then show ?thesis
      unfolding sr Some by (auto simp: pendingDelete_def)
  next
    case None
    note errNone = None
    have req': "request u s payload env =
       (if chans s2 ch \<noteq> [] \<and> \<not> (CtxCancel \<in> set (during env) \<and> preferCancel env)
        then Some (receiveResponse s2 k ch)
        else if CtxCancel \<in> set (during env) then Some (Inl Cancelled, pendingDelete s2 k)
        else awaitSelect u s2 k ch (after env))"
      by (simp add: req errNone)
    have quiet2: "chans s2 ch = []" if "\<forall>ev\<in>set (during env). \<not> answers u k ev"
      using chans_runEvents_keep[OF inv1, of "during env" False] that c1 by (simp add: s2_def)
    have partial: "pending s' k = None \<and>
        ((res = Inl Cancelled \<and> CtxCancel \<in> set (during env @ after env)) \<or>
         (\<exists>msg. res = Inr (Some msg) \<and> rawID u msg = Some k))"
      if r: "request u s payload env = Some (res, s')" for res s'
    proof (cases "chans s2 ch \<noteq> [] \<and> \<not> (CtxCancel \<in> set (during env) \<and> preferCancel env)")
      case True
      then have "Some (receiveResponse s2 k ch) = Some (res, s')" using r req' by simp
      moreover from True receiveResponse_ok[OF inv2] obtain msg t where
        "receiveResponse s2 k ch = (Inr (Some msg), t)" "pending t k = None" "rawID u msg = Some k"
        by blast
      ultimately show ?thesis by auto
    next
      case False
      note notReady = False
      show ?thesis
      proof (cases "CtxCancel \<in> set (during env)")
        case True
        then have "Some (Inl Cancelled, pendingDelete s2 k) = Some (res, s')"
          using r req' notReady by auto
        then show ?thesis using True by (auto simp: pendingDelete_def)
      next
        case False
        then have a: "awaitSelect u s2 k ch (after env) = Some (res, s')"
          using r req' notReady by simp
        show ?thesis
          using awaitSelect_ok[OF inv2 a] awaitSelect_cancelled[of u s2 k ch "after env" s'] a
          by auto
      qed
    qed
    have returns: "request u s payload env \<noteq> None"
      if "CtxCancel \<in> set (during env @ after env)"
    proof (cases "CtxCancel \<in> set (during env)")
      case True
      then show ?thesis by (simp add: req')
    next
      case False
      then have "CtxCancel \<in> set (after env)" using that by simp
      then have "awaitSelect u s2 k ch (after env) \<noteq> None" by (rule awaitSelect_cancel)
      then show ?thesis using False by (simp add: req')
    qed
    have early: "\<exists>s'. request u s payload env = Some (Inr (Some raw), s')"
      if d: "during env = pre @ Inbound raw uuid now # post" and k: "rawID u raw = Some k"
        and q: "\<forall>ev\<in>set pre. \<not> answers u k ev" and f: "readerFree u s k pre"
        and pc: "\<not> (preferCancel env \<and> CtxCancel \<in> set (during env))"
      for pre raw uuid now post
    proof -
      define sP where "sP = fst (runEvents u s1 False pre)"
      define bP where "bP = snd (runEvents u s1 False pre)"
      define sH where "sH = handleMessage u sP raw uuid now"
      have fP: "parked sP = None" unfolding sP_def by (rule free[OF f])
      have invP: "in_flight u k ch sP" unfolding sP_def by (rule in_flight_runEvents[OF inv1])
      have cP: "chans sP ch = []"
        using chans_runEvents_keep[OF inv1, of pre False] q c1 by (simp add: sP_def)
      have pP: "pending sP k = Some ch" unfolding sP_def by (rule pend)
      have cH: "chans sH ch = [raw]"
        unfolding sH_def by (rule handleMessage_delivers[OF pP cP k])
      have invH: "in_flight u k ch sH"
        unfolding sH_def by (rule in_flight_handleMessage[OF invP])
      have "s2 = fst (runEvents u sP bP (Inbound raw uuid now # post))"
        unfolding s2_def d runEvents_append sP_def bP_def by simp
      then have "s2 = fst (runEvents u sH bP post)" using fP by (simp add: sH_def)
      then have c2: "chans s2 ch = [raw]"
        using chans_runEvents_keep[OF invH, of post bP] cH by simp
      then have "request u s payload env = Some (receiveResponse s2 k ch)"
        using pc by (auto simp: req')
      moreover have "fst (receiveResponse s2 k ch) = Inr (Some raw)"
        by (simp add: receiveResponse_fst c2)
      ultimately show ?thesis by (metis prod.collapse)
    qed
    have late: "\<exists>s'. request u s payload env = Some (Inr (Some raw), s')"
      if a: "after env = pre @ Inbound raw uuid now # post" and k: "rawID u raw = Some k"
        and q: "\<forall>ev\<in>set (during env @ pre). \<not> decisive u k ev"
        and f: "readerFree u s k (during env @ pre)"
      for pre raw uuid now post
    proof -
      define s3 where "s3 = fst (runEvents u s2 False pre)"
      have qd: "\<forall>ev\<in>set (during env). \<not> answers u k ev" using q not_decisive_answers by auto
      have qp: "\<forall>ev\<in>set pre. \<not> decisive u k ev" using q by simp
      have qpa: "\<forall>ev\<in>set pre. \<not> answers u k ev" using qp not_decisive_answers by blast
      have nc: "CtxCancel \<notin> set (during env)" using q not_decisive_cancel[of "during env @ pre"] by simp
      have c2: "chans s2 ch = []" by (rule quiet2[OF qd])
      have s3': "s3 = fst (runEvents u s1 False (during env @ pre))"
        by (simp add: s3_def s2_def runEvents_append_fst)
      have f3: "parked s3 = None" unfolding s3' by (rule free[OF f])
      have inv3: "in_flight u k ch s3" unfolding s3_def by (rule in_flight_runEvents[OF inv2])
      have c3: "chans s3 ch = []"
        using chans_runEvents_keep[OF inv2, of pre False] qpa c2 by (simp add: s3_def)
      have p3: "pending s3 k = Some ch" unfolding s3' by (rule pend)
      let ?sH = "handleMessage u s3 raw uuid now"
      have cH: "chans ?sH ch = [raw]" by (rule handleMessage_delivers[OF p3 c3 k])
      have "request u s payload env = awaitSelect u s2 k ch (pre @ Inbound raw uuid now # post)"
        using nc c2 by (simp add: req' a)
      also have "\<dots> = awaitSelect u s3 k ch (Inbound raw uuid now # post)"
        unfolding s3_def by (rule awaitSelect_quiet[OF inv2 c2 qp])
      also have "\<dots> = Some (receiveResponse ?sH k ch)"
        using f3 cH by (simp add: Let_def)
      finally have "request u s payload env = Some (receiveResponse ?sH k ch)" .
      moreover have "fst (receiveResponse ?sH k ch) = Inr (Some raw)"
        by (simp add: receiveResponse_fst cH)
      ultimately show ?thesis by (metis prod.collapse)
    qed
    have cancelEarly: "\<exists>s'. request u s payload env = Some (Inl Cancelled, s')"
      if "CtxCancel \<in> set (during env)"
        and "preferCancel env \<or> (\<forall>ev\<in>set (during env). \<not> answers u k ev)"
      using that quiet2 by (auto simp: req')
    have cancelLate: "\<exists>s'. request u s payload env = Some (Inl Cancelled, s')"
      if a: "after env = pre @ CtxCancel # post"
        and q: "\<forall>ev\<in>set (during env @ pre). \<not> decisive u k ev"
      for pre post
    proof -
      have qd: "\<forall>ev\<in>set (during env). \<not> answers u k ev" using q not_decisive_answers by auto
      have qp: "\<forall>ev\<in>set pre. \<not> decisive u k ev" using q by simp
      have nc: "CtxCancel \<notin> set (during env)" using q not_decisive_cancel[of "during env @ pre"] by simp
      have c2: "chans s2 ch = []" by (rule quiet2[OF qd])
      have "request u s payload env = awaitSelect u s2 k ch (pre @ CtxCancel # post)"
        using nc c2 by (simp add: req' a)
      also have "\<dots> = awaitSelect u (fst (runEvents u s2 False pre)) k ch (CtxCancel # post)"
        by (rule awaitSelect_quiet[OF inv2 c2 qp])
      finally show ?thesis by simp
    qed
    have waits: "request u s payload env = None"
      if q: "\<forall>ev\<in>set (during env @ after env). \<not> decisive u k ev"
    proof -
      have qd: "\<forall>ev\<in>set (during env). \<not> answers u k ev" using q not_decisive_answers by auto
      have qa: "\<forall>ev\<in>set (after env). \<not> decisive u k ev" using q by simp
      have nc: "CtxCancel \<notin> set (during env)"
        using q not_decisive_cancel[of "during env @ after env"] by simp
      have c2: "chans s2 ch = []" by (rule quiet2[OF qd])
      have "request u s payload env = awaitSelect u s2 k ch (after env @ [])"
        using nc c2 by (simp add: req')
      also have "\<dots> = awaitSelect u (fst (runEvents u s2 False (after env))) k ch []"
        by (rule awaitSelect_quiet[OF inv2 c2 qa])
      finally show ?thesis by simp
    qed
    show ?thesis
      unfolding sr errNone
    proof (intro conjI allI impI)
      fix res s'
      assume "request u s payload env = Some (res, s')"
      from partial[OF this] show "pending s' k = None" by simp
    next
      fix res s'
      assume "request u s payload env = Some (res, s')"
      from partial[OF this]
      show "(\<exists>e. res = Inl (SendFailed e) \<and> Some (None :: string option) = Some (Some e)) \<or>
            res = Inl Cancelled \<and> Some (None :: string option) = Some None \<and>
              CtxCancel \<in> set (during env @ after env) \<or>
            (\<exists>msg. res = Inr (Some msg) \<and> rawID u msg = Some k \<and>
              Some (None :: string option) = Some None)"
        by auto
    next
      assume "Some (None :: string option) = None"
      then show "request u s payload env = None" by simp
    next
      fix e :: string
      assume "Some (None :: string option) = Some (Some e)"
      then show "\<exists>s'. request u s payload env = Some (Inl (SendFailed e), s')" by simp
    next
      assume "CtxCancel \<in> set (during env @ after env)"
      then show "request u s payload env \<noteq> None" by (rule returns)
    next
      fix pre raw uuid now post
      assume "during env = pre @ Inbound raw uuid now # post \<and> rawID u raw = Some k \<and>
            (\<forall>ev\<in>set pre. \<not> answers u k ev) \<and> readerFree u s k pre \<and>
            \<not> (preferCancel env \<and> CtxCancel \<in> set (during env))"
      then show "\<exists>s'. request u s payload env = Some (Inr (Some raw), s')"
        using early by blast
    next
      fix pre raw uuid now post
      assume "after env = pre @ Inbound raw uuid now # post \<and> rawID u raw = Some k \<and>
            (\<forall>ev\<in>set (during env @ pre). \<not> decisive u k ev) \<and>
            readerFree u s k (during env @ pre)"
      then show "\<exists>s'. request u s payload env = Some (Inr (Some raw), s')"
        using late by blast
    next
      assume "CtxCancel \<in> set (during env) \<and>
            (preferCancel env \<or> (\<forall>ev\<in>set (during env). \<not> answers u k ev))"
      then show "\<exists>s'. request u s payload env = Some (Inl Cancelled, s')"
        using cancelEarly by blast
    next
      fix pre post
      assume "after env = pre @ CtxCancel # post \<and>
            (\<forall>ev\<in>set (during env @ pre). \<not> decisive u k ev)"
      then show "\<exists>s'. request u s payload env = Some (Inl Cancelled, s')"
        using cancelLate by blast
    next
      assume "\<forall>ev\<in>set (during env @ after env). \<not> decisive u k ev"
      then show "request u s payload env = None" by (rule waits)
    qed
  qed
qed

text \<open>A started session without pending requests, and a decoder that knows three messages.\<close>

definition idle_session :: session where
  "idle_session = newSession ''s1'' (NewClient\<lparr>stdin := True, cmd := Some True\<rparr>) None True"

definition demo_request_unmarshal :: unmarshaler where
  \<open>demo_request_unmarshal raw =
     (if raw = ''{"id":7,"method":"ping"}'' then Some [''id'' \<mapsto> ''7'', ''method'' \<mapsto> ''"ping"'']
      else if raw = ''{"id":7,"result":1}'' then Some [''id'' \<mapsto> ''7'', ''result'' \<mapsto> ''1'']
      else if raw = ''{"id":8,"result":2}'' then Some [''id'' \<mapsto> ''8'', ''result'' \<mapsto> ''2'']
      else None)\<close>

lemmas request_eval =
  idle_session_def newSession_def NewClient_def OnClose_def demo_request_unmarshal_def
  request_def register_def Client_Send_def handleMessage_def storeAndBroadcast_def broadcast_def
  chanRecv_def receiveResponse_def pendingDelete_def Let_def zeroTime_def

theorem request_outcomes_witness:
  \<open>wf_session idle_session \<and>
   demo_request_unmarshal ''{"id":7,"method":"ping"}''
     = Some [''id'' \<mapsto> ''7'', ''method'' \<mapsto> ''"ping"''] \<and>
   [''id'' \<mapsto> ''7'', ''method'' \<mapsto> ''"ping"''] ''id'' = Some ''7'' \<and>
   map_option fst (request demo_request_unmarshal idle_session ''{"id":7,"method":"ping"}''
      \<lparr>writeOutcome = WriteOK, during = [], preferCancel = False,
       after = [Inbound ''{"id":8,"result":2}'' ''u1'' 1, Inbound ''{"id":7,"result":1}'' ''u2'' 2,
                CtxCancel]\<rparr>)
     = Some (Inr (Some ''{"id":7,"result":1}'')) \<and>
   map_option fst (request demo_request_unmarshal idle_session ''{"id":7,"method":"ping"}''
      \<lparr>writeOutcome = WriteOK, during = [Inbound ''{"id":7,"result":1}'' ''u2'' 2],
       preferCancel = False, after = [CtxCancel]\<rparr>)
     = Some (Inr (Some ''{"id":7,"result":1}'')) \<and>
   map_option fst (request demo_request_unmarshal idle_session ''{"id":7,"method":"ping"}''
      \<lparr>writeOutcome = WriteOK, during = [], preferCancel = False,
       after = [Inbound ''{"id":8,"result":2}'' ''u1'' 1, CtxCancel]\<rparr>)
     = Some (Inl Cancelled) \<and>
   map_option fst (request demo_request_unmarshal idle_session ''{"id":7,"method":"ping"}''
      \<lparr>writeOutcome = WriteError ''broken pipe'', during = [], preferCancel = False, after = []\<rparr>)
     = Some (Inl (SendFailed ''broken pipe'')) \<and>
   request demo_request_unmarshal idle_session ''{"id":7,"method":"ping"}''
      \<lparr>writeOutcome = WriteOK, during = [], preferCancel = False,
       after = [Inbound ''{"id":8,"result":2}'' ''u1'' 1]\<rparr> = None \<and>
   request demo_request_unmarshal idle_session ''{"id":7,"method":"ping"}''
      \<lparr>writeOutcome = WriteBlocks, during = [CtxCancel], preferCancel = True, after = []\<rparr> = None\<close>
proof -
  let ?env = \<open>\<lparr>writeOutcome = WriteOK, during = [], preferCancel = False,
       after = [Inbound ''{"id":8,"result":2}'' ''u1'' 1, Inbound ''{"id":7,"result":1}'' ''u2'' 2,
                CtxCancel]\<rparr>\<close>
  have w: "wf_session idle_session"
    by (simp add: wf_session_def request_eval)
  have p: \<open>demo_request_unmarshal ''{"id":7,"method":"ping"}''
     = Some [''id'' \<mapsto> ''7'', ''method'' \<mapsto> ''"ping"'']\<close>
    \<open>[''id'' \<mapsto> ''7'', ''method'' \<mapsto> ''"ping"''] ''id'' = Some ''7''\<close>
    by (simp_all add: request_eval)
  note t = request_outcomes [where s = idle_session and u = demo_request_unmarshal
        and payload = \<open>''{"id":7,"method":"ping"}''\<close>
        and envelope = \<open>[''id'' \<mapsto> ''7'', ''method'' \<mapsto> ''"ping"'']\<close>
        and k = "''7''" and env = ?env, OF w p]
  have sr: \<open>sendResult idle_session ''{"id":7,"method":"ping"}'' ?env = Some None\<close>
    by (simp add: sendResult_def request_eval)
  have h: \<open>after ?env = [Inbound ''{"id":8,"result":2}'' ''u1'' 1] @
              Inbound ''{"id":7,"result":1}'' ''u2'' 2 # [CtxCancel] \<and>
           rawID demo_request_unmarshal ''{"id":7,"result":1}'' = Some ''7'' \<and>
           (\<forall>ev\<in>set (during ?env @ [Inbound ''{"id":8,"result":2}'' ''u1'' 1]).
               \<not> decisive demo_request_unmarshal ''7'' ev) \<and>
           readerFree demo_request_unmarshal idle_session ''7''
             (during ?env @ [Inbound ''{"id":8,"result":2}'' ''u1'' 1])\<close>
    by (simp add: decisive_def rawID_def readerFree_def request_eval)
  from t sr have
    \<open>\<forall>pre raw uuid now post.
        after ?env = pre @ Inbound raw uuid now # post \<and>
        rawID demo_request_unmarshal raw = Some ''7'' \<and>
        (\<forall>ev\<in>set (during ?env @ pre). \<not> decisive demo_request_unmarshal ''7'' ev) \<and>
        readerFree demo_request_unmarshal idle_session ''7'' (during ?env @ pre) \<longrightarrow>
        (\<exists>s'. request demo_request_unmarshal idle_session ''{"id":7,"method":"ping"}'' ?env
                 = Some (Inr (Some raw), s'))\<close>
    by blast
  from this h obtain s' where
    \<open>request demo_request_unmarshal idle_session ''{"id":7,"method":"ping"}'' ?env
       = Some (Inr (Some ''{"id":7,"result":1}''), s')\<close>
    by blast
  then have a: \<open>map_option fst
      (request demo_request_unmarshal idle_session ''{"id":7,"method":"ping"}'' ?env)
     = Some (Inr (Some ''{"id":7,"result":1}''))\<close>
    by simp
  have a2: \<open>map_option fst (request demo_request_unmarshal idle_session ''{"id":7,"method":"ping"}''
      \<lparr>writeOutcome = WriteOK, during = [Inbound ''{"id":7,"result":1}'' ''u2'' 2],
       preferCancel = False, after = [CtxCancel]\<rparr>)
     = Some (Inr (Some ''{"id":7,"result":1}''))\<close>
    by (simp add: request_eval)
  have b: \<open>map_option fst (request demo_request_unmarshal idle_session ''{"id":7,"method":"ping"}''
      \<lparr>writeOutcome = WriteOK, during = [], preferCancel = False,
       after = [Inbound ''{"id":8,"result":2}'' ''u1'' 1, CtxCancel]\<rparr>)
     = Some (Inl Cancelled)\<close>
    by (simp add: request_eval)
  have c: \<open>map_option fst (request demo_request_unmarshal idle_session ''{"id":7,"method":"ping"}''
      \<lparr>writeOutcome = WriteError ''broken pipe'', during = [], preferCancel = False, after = []\<rparr>)
     = Some (Inl (SendFailed ''broken pipe''))\<close>
    by (simp add: request_eval)
  have d: \<open>request demo_request_unmarshal idle_session ''{"id":7,"method":"ping"}''
      \<lparr>writeOutcome = WriteOK, during = [], preferCancel = False,
       after = [Inbound ''{"id":8,"result":2}'' ''u1'' 1]\<rparr> = None\<close>
    by (simp add: request_eval)
  have e: \<open>request demo_request_unmarshal idle_session ''{"id":7,"method":"ping"}''
      \<lparr>writeOutcome = WriteBlocks, during = [CtxCancel], preferCancel = True, after = []\<rparr> = None\<close>
    by (simp add: request_eval)
  from w p a a2 b c d e show ?thesis by blast
qed

section \<open>Session: a second message for a pending request\<close>

text \<open>While the reader is parked in a send it handles nothing.\<close>

lemma runEvents_parked: "parked s \<noteq> None \<Longrightarrow> fst (runEvents u s b evs) = s"
proof (induction evs arbitrary: b)
  case Nil
  then show ?case by simp
next
  case (Cons e evs)
  then show ?case by (cases e) simp_all
qed

lemma handleMessage_slotTaken_store:
  "slotTaken u s raw \<Longrightarrow>
   store (handleMessage u s raw uuid now) = store s \<and>
   subs (handleMessage u s raw uuid now) = subs s"
  using handleMessage_parks[of u s raw uuid now] by auto

text \<open>
  A started session with an event store and one subscriber, and a decoder that knows a
  request, two messages that carry its id, and a notification.
\<close>

definition stored_session :: session where
  "stored_session =
     (newSession ''s1'' (NewClient\<lparr>stdin := True, cmd := Some True\<rparr>) (Some NewMemory) True)
       \<lparr>subs := [\<lparr>cap = 4, buf = []\<rparr>]\<rparr>"

definition demo_replies_unmarshal :: unmarshaler where
  \<open>demo_replies_unmarshal raw =
     (if raw = ''{"id":7,"method":"ping"}'' then Some [''id'' \<mapsto> ''7'', ''method'' \<mapsto> ''"ping"'']
      else if raw = ''{"id":7,"result":1}'' then Some [''id'' \<mapsto> ''7'', ''result'' \<mapsto> ''1'']
      else if raw = ''{"id":7,"result":2}'' then Some [''id'' \<mapsto> ''7'', ''result'' \<mapsto> ''2'']
      else if raw = ''{"method":"n"}'' then Some [''method'' \<mapsto> ''"n"'']
      else None)\<close>

lemmas replies_eval =
  stored_session_def newSession_def NewClient_def OnClose_def NewMemory_def
  demo_replies_unmarshal_def request_def register_def Client_Send_def handleMessage_def
  storeAndBroadcast_def broadcast_def trySend_def Store_def generateID_def chanRecv_def
  receiveResponse_def pendingDelete_def Let_def zeroTime_def

text \<open>
  Claim C10 on the code, at an input where it fails. A request with id 7 is in flight
  and the child sends two messages that carry the id 7. The first fills the one-slot
  channel of the request and is stored and broadcast. For the second, \<open>handleMessage\<close>
  blocks in the send \<open>ch <- msg\<close>, which stands before \<open>storeAndBroadcast\<close>. The context of
  the request is cancelled and its \<open>select\<close> takes that case (or the write to the child
  fails): \<open>request\<close> returns without receiving from the channel, and nothing receives from
  it afterwards. The second message is then neither in the store nor in the subscriber's
  channel, the reader stays blocked in the send, and a notification that the child sends
  later is not handled either.
\<close>

theorem second_message_for_pending_request_is_lost:
  \<open>map_option fst
     (request demo_replies_unmarshal stored_session ''{"id":7,"method":"ping"}''
        \<lparr>writeOutcome = WriteOK,
         during = [Inbound ''{"id":7,"result":1}'' ''u1'' 1,
                   Inbound ''{"id":7,"result":2}'' ''u2'' 2, CtxCancel],
         preferCancel = True, after = []\<rparr>) = Some (Inl Cancelled) \<and>
   map_option (\<lambda>r. store (snd r))
     (request demo_replies_unmarshal stored_session ''{"id":7,"method":"ping"}''
        \<lparr>writeOutcome = WriteOK,
         during = [Inbound ''{"id":7,"result":1}'' ''u1'' 1,
                   Inbound ''{"id":7,"result":2}'' ''u2'' 2, CtxCancel],
         preferCancel = True, after = []\<rparr>)
     = Some (Some [(''s1_u1'', \<lparr>ID = ''s1_u1'', StreamID = ''s1'',
                       Payload = ''{"id":7,"result":1}'', Timestamp = 1\<rparr>)]) \<and>
   map_option (\<lambda>r. subs (snd r))
     (request demo_replies_unmarshal stored_session ''{"id":7,"method":"ping"}''
        \<lparr>writeOutcome = WriteOK,
         during = [Inbound ''{"id":7,"result":1}'' ''u1'' 1,
                   Inbound ''{"id":7,"result":2}'' ''u2'' 2, CtxCancel],
         preferCancel = True, after = []\<rparr>)
     = Some [\<lparr>cap = 4, buf = [\<lparr>ID = ''s1_u1'', StreamID = ''s1'',
                       Payload = ''{"id":7,"result":1}'', Timestamp = 0\<rparr>]\<rparr>] \<and>
   map_option (\<lambda>r. parked (snd r))
     (request demo_replies_unmarshal stored_session ''{"id":7,"method":"ping"}''
        \<lparr>writeOutcome = WriteOK,
         during = [Inbound ''{"id":7,"result":1}'' ''u1'' 1,
                   Inbound ''{"id":7,"result":2}'' ''u2'' 2, CtxCancel],
         preferCancel = True, after = []\<rparr>)
     = Some (Some (0, ''{"id":7,"result":2}'', ''u2'', 2)) \<and>
   map_option (\<lambda>r. fst (runEvents demo_replies_unmarshal (snd r) False
                          [Inbound ''{"method":"n"}'' ''u3'' 3]) = snd r)
     (request demo_replies_unmarshal stored_session ''{"id":7,"method":"ping"}''
        \<lparr>writeOutcome = WriteOK,
         during = [Inbound ''{"id":7,"result":1}'' ''u1'' 1,
                   Inbound ''{"id":7,"result":2}'' ''u2'' 2, CtxCancel],
         preferCancel = True, after = []\<rparr>) = Some True \<and>
   map_option (\<lambda>r. (fst r, store (snd r), parked (snd r)))
     (request demo_replies_unmarshal stored_session ''{"id":7,"method":"ping"}''
        \<lparr>writeOutcome = WriteError ''broken pipe'',
         during = [Inbound ''{"id":7,"result":1}'' ''u1'' 1,
                   Inbound ''{"id":7,"result":2}'' ''u2'' 2],
         preferCancel = False, after = []\<rparr>)
     = Some (Inl (SendFailed ''broken pipe''),
             Some [(''s1_u1'', \<lparr>ID = ''s1_u1'', StreamID = ''s1'',
                       Payload = ''{"id":7,"result":1}'', Timestamp = 1\<rparr>)],
             Some (0, ''{"id":7,"result":2}'', ''u2'', 2))\<close>
proof -
  let ?r = \<open>request demo_replies_unmarshal stored_session ''{"id":7,"method":"ping"}''
        \<lparr>writeOutcome = WriteOK,
         during = [Inbound ''{"id":7,"result":1}'' ''u1'' 1,
                   Inbound ''{"id":7,"result":2}'' ''u2'' 2, CtxCancel],
         preferCancel = True, after = []\<rparr>\<close>
  have a: "map_option fst ?r = Some (Inl Cancelled)"
    by (simp add: replies_eval)
  have b: \<open>map_option (\<lambda>r. store (snd r)) ?r
     = Some (Some [(''s1_u1'', \<lparr>ID = ''s1_u1'', StreamID = ''s1'',
                       Payload = ''{"id":7,"result":1}'', Timestamp = 1\<rparr>)])\<close>
    by (simp add: replies_eval)
  have c: \<open>map_option (\<lambda>r. subs (snd r)) ?r
     = Some [\<lparr>cap = 4, buf = [\<lparr>ID = ''s1_u1'', StreamID = ''s1'',
                       Payload = ''{"id":7,"result":1}'', Timestamp = 0\<rparr>]\<rparr>]\<close>
    by (simp add: replies_eval)
  have d: \<open>map_option (\<lambda>r. parked (snd r)) ?r = Some (Some (0, ''{"id":7,"result":2}'', ''u2'', 2))\<close>
    by (simp add: replies_eval)
  have e: \<open>map_option (\<lambda>r. fst (runEvents demo_replies_unmarshal (snd r) False
                          [Inbound ''{"method":"n"}'' ''u3'' 3]) = snd r) ?r = Some True\<close>
    by (simp add: replies_eval)
  have f: \<open>map_option (\<lambda>r. (fst r, store (snd r), parked (snd r)))
     (request demo_replies_unmarshal stored_session ''{"id":7,"method":"ping"}''
        \<lparr>writeOutcome = WriteError ''broken pipe'',
         during = [Inbound ''{"id":7,"result":1}'' ''u1'' 1,
                   Inbound ''{"id":7,"result":2}'' ''u2'' 2],
         preferCancel = False, after = []\<rparr>)
     = Some (Inl (SendFailed ''broken pipe''),
             Some [(''s1_u1'', \<lparr>ID = ''s1_u1'', StreamID = ''s1'',
                       Payload = ''{"id":7,"result":1}'', Timestamp = 1\<rparr>)],
             Some (0, ''{"id":7,"result":2}'', ''u2'', 2))\<close>
    by (simp add: replies_eval)
  from a b c d e f show ?thesis by blast
qed

section \<open>HTTP front end: the stream endpoint (internal/mcp, internal/httpserver)\<close>

text \<open>
  \<open>mcp.Request\<close>. \<open>json.Unmarshal\<close> into this struct leaves a field at its zero value (the
  empty string) when the member is absent. The decoder is the library's; \<open>ur\<close> stands for
  it in the functions below (\<open>None\<close> is the error).
\<close>

record Request =
  JSONRPC :: string
  Method :: string
  RequestID :: bytes
  Params :: bytes

definition IsInitializeRequest :: "(bytes \<Rightarrow> Request option) \<Rightarrow> bytes \<Rightarrow> bool" where
  "IsInitializeRequest ur raw =
     (case ur raw of
        None \<Rightarrow> False
      | Some req \<Rightarrow> Method req = ''initialize'' \<and> JSONRPC req = ''2.0'')"

text \<open>
  \<open>Client.Start\<close>: \<open>perr\<close> is the error of creating one of the three pipes, \<open>serr\<close> the error
  of \<open>cmd.Start\<close>, if any.
\<close>

definition Client_Start :: "Client \<Rightarrow> string option \<Rightarrow> string option \<Rightarrow> Client \<times> string option" where
  "Client_Start c perr serr =
     (if cmd c \<noteq> None then (c, Some ''already started'')
      else (case perr of
              Some e \<Rightarrow> (c, Some e)
            | None \<Rightarrow>
                (case serr of
                   Some e \<Rightarrow> (c\<lparr>cmd := Some False, stdin := True\<rparr>, Some e)
                 | None \<Rightarrow> (c\<lparr>cmd := Some True, stdin := True\<rparr>, None))))"

text \<open>The server: its options and the map from session ids to sessions.\<close>

record Server =
  opts :: Options
  sessions :: "string \<rightharpoonup> session"

text \<open>
  What the environment decides during one call of \<open>handleStream\<close>: the result of the
  \<open>CreateTransport\<close> callback (an error text or a transport), the uuid drawn for the
  session, the errors of starting the transport, the inputs of \<open>request\<close>, and the text of
  each error that \<open>request\<close> can return (\<open>err.Error()\<close>).
\<close>

record stream_env =
  created :: "string + Client"
  newUUID :: string
  pipeErr :: "string option"
  startErr :: "string option"
  reqEnv :: request_env
  errorText :: "request_error \<Rightarrow> string"

text \<open>
  \<open>createSession\<close>: an error text, or the started session with its id and the server
  that holds it. The \<open>finalize\<close> closure is the session's \<open>onClose\<close>, so the field is set.
\<close>

definition createSession :: "Server \<Rightarrow> stream_env \<Rightarrow> string + (session \<times> string \<times> Server)" where
  "createSession srv env =
     (if \<not> hasCreateTransport (opts srv) then Inl ''CreateTransport not configured''
      else (case created env of
              Inl e \<Rightarrow> Inl e
            | Inr tr \<Rightarrow>
                (let sessionID = newUUID env;
                     mem = (if hasEventStoreFactory (opts srv) \<and> \<not> Stateless (opts srv)
                            then Some NewMemory else None);
                     sess = newSession sessionID tr mem True;
                     (c, err) = Client_Start (transport sess) (pipeErr env) (startErr env);
                     sess' = sess\<lparr>transport := c\<rparr>
                 in case err of
                      Some e \<Rightarrow> Inl e
                    | None \<Rightarrow>
                        Inr (sess', sessionID,
                             if \<not> Stateless (opts srv)
                             then srv\<lparr>sessions := (sessions srv)(sessionID \<mapsto> sess')\<rparr>
                             else srv))))"

definition plainResponse :: "nat \<Rightarrow> Header \<Rightarrow> bytes \<Rightarrow> Response" where
  "plainResponse code w body = \<lparr>status = code, respHeader = w, respBody = body\<rparr>"

text \<open>\<open>writeJSONResponse\<close>\<close>

definition writeJSONResponse :: "Header \<Rightarrow> bytes \<Rightarrow> Response" where
  "writeJSONResponse w payload =
     \<lparr>status = 200, respHeader = Header_Set ''Content-Type'' ''application/json'' w,
      respBody = payload\<rparr>"

text \<open>
  \<open>handleDelete\<close>. Closing the session runs \<open>finalize\<close> the first time, which removes the
  session from the map in stateful mode.
\<close>

definition handleDelete :: "Server \<Rightarrow> Header \<Rightarrow> HttpRequest \<Rightarrow> Response \<times> Server" where
  "handleDelete srv w r =
     (let sessionID = Header_Get r ''mcp-session-id'' in
      if sessionID = '''' then (plainResponse 400 w ''missing session id'', srv)
      else (case sessions srv sessionID of
              None \<Rightarrow> (plainResponse 404 w [], srv)
            | Some sess \<Rightarrow>
                (let sess' = session_close sess;
                     finalized = (sessOnCloseCalls sess' \<noteq> sessOnCloseCalls sess)
                 in (plainResponse 204 w [],
                     if finalized \<and> \<not> Stateless (opts srv)
                     then srv\<lparr>sessions := (sessions srv)(sessionID := None)\<rparr>
                     else srv\<lparr>sessions := (sessions srv)(sessionID \<mapsto> sess')\<rparr>))))"

text \<open>
  The response to the result of \<open>request\<close>, shared by both branches of \<open>handleStream\<close>.
\<close>

definition respond :: "stream_env \<Rightarrow> Header \<Rightarrow> request_result \<Rightarrow> Response" where
  "respond env w res =
     (case res of
        Inl e \<Rightarrow> plainResponse 500 w (errorText env e)
      | Inr (Some resp) \<Rightarrow> writeJSONResponse w resp
      | Inr None \<Rightarrow> plainResponse 204 w [])"

text \<open>
  \<open>handleStream\<close>, given the headers set so far. The result is the response and the
  server afterwards; it is \<open>None\<close> when \<open>request\<close> never returns.
\<close>

definition handleStream ::
  "(bytes \<Rightarrow> Request option) \<Rightarrow> unmarshaler \<Rightarrow> Server \<Rightarrow> Header \<Rightarrow> HttpRequest \<Rightarrow> stream_env
     \<Rightarrow> (Response \<times> Server) option"
where
  "handleStream ur u srv w r env =
     (if httpMethod r = ''DELETE'' then Some (handleDelete srv w r)
      else if httpMethod r \<noteq> ''POST'' then Some (plainResponse 405 w [], srv)
      else (case reqBody r of
              Inl e \<Rightarrow> Some (plainResponse 400 w e, srv)
            | Inr body \<Rightarrow>
                (let sessionID = Header_Get r ''mcp-session-id'' in
                 if sessionID = '''' then
                   (if \<not> IsInitializeRequest ur body \<and> \<not> Stateless (opts srv)
                    then Some (plainResponse 400 w ''missing session id'', srv)
                    else (case createSession srv env of
                            Inl e \<Rightarrow> Some (plainResponse 500 w e, srv)
                          | Inr (sess, newID, srv1) \<Rightarrow>
                              (let w1 = (if \<not> Stateless (opts srv)
                                         then Header_Set ''mcp-session-id'' newID w else w)
                               in case request u sess body (reqEnv env) of
                                    None \<Rightarrow> None
                                  | Some (res, sess') \<Rightarrow>
                                      Some (respond env w1 res,
                                            if Stateless (opts srv) then srv1
                                            else srv1\<lparr>sessions := (sessions srv1)(newID \<mapsto> sess')\<rparr>))))
                 else (case sessions srv sessionID of
                         None \<Rightarrow> Some (plainResponse 404 w ''session not found'', srv)
                       | Some sess \<Rightarrow>
                           (case request u sess body (reqEnv env) of
                              None \<Rightarrow> None
                            | Some (res, sess') \<Rightarrow>
                                Some (respond env w res,
                                      srv\<lparr>sessions := (sessions srv)(sessionID \<mapsto> sess')\<rparr>))))))"

text \<open>Concrete inputs: a stateful server without sessions and two decoders.\<close>

definition stateful_server :: Server where
  "stateful_server =
     \<lparr>opts = \<lparr>APIKey = '''', StreamEndpoint = ''/mcp'', SSEEndpoint = ''/sse'',
               Stateless = False, hasCreateTransport = True, hasEventStoreFactory = True,
               hasOnUnhandled = False\<rparr>,
      sessions = Map.empty\<rparr>"

definition demo_decode_request :: "bytes \<Rightarrow> Request option" where
  \<open>demo_decode_request raw =
     (if raw = ''{"jsonrpc":"2.0","id":1,"method":"initialize"}''
      then Some \<lparr>JSONRPC = ''2.0'', Method = ''initialize'', RequestID = ''1'', Params = []\<rparr>
      else if raw = ''{"id":1,"method":"initialize"}''
      then Some \<lparr>JSONRPC = '''', Method = ''initialize'', RequestID = ''1'', Params = []\<rparr>
      else None)\<close>

definition demo_decode_envelope :: unmarshaler where
  \<open>demo_decode_envelope raw =
     (if raw = ''{"jsonrpc":"2.0","id":1,"method":"initialize"}''
      then Some [''jsonrpc'' \<mapsto> ''"2.0"'', ''id'' \<mapsto> ''1'', ''method'' \<mapsto> ''"initialize"'']
      else if raw = ''{"id":1,"method":"initialize"}''
      then Some [''id'' \<mapsto> ''1'', ''method'' \<mapsto> ''"initialize"'']
      else if raw = ''{"jsonrpc":"2.0","id":1,"result":{}}''
      then Some [''jsonrpc'' \<mapsto> ''"2.0"'', ''id'' \<mapsto> ''1'', ''result'' \<mapsto> ''{}'']
      else None)\<close>

definition demo_stream_env :: stream_env where
  \<open>demo_stream_env =
     \<lparr>created = Inr NewClient, newUUID = ''abc'', pipeErr = None, startErr = None,
      reqEnv = \<lparr>writeOutcome = WriteOK, during = [], preferCancel = False,
                after = [Inbound ''{"jsonrpc":"2.0","id":1,"result":{}}'' ''u1'' 1]\<rparr>,
      errorText = (\<lambda>e. ''error'')\<rparr>\<close>

definition post_request :: "bytes \<Rightarrow> HttpRequest" where
  "post_request body =
     \<lparr>httpMethod = ''POST'', urlPath = ''/mcp'', reqHeader = Map.empty, reqBody = Inr body\<rparr>"

section \<open>Stream endpoint: properties\<close>

lemma handleStream_no_session_id:
  assumes "httpMethod r = ''POST''" "reqBody r = Inr body" "Header_Get r ''mcp-session-id'' = ''''"
  shows "handleStream ur u srv w r env =
     (if \<not> IsInitializeRequest ur body \<and> \<not> Stateless (opts srv)
      then Some (plainResponse 400 w ''missing session id'', srv)
      else (case createSession srv env of
              Inl e \<Rightarrow> Some (plainResponse 500 w e, srv)
            | Inr (sess, newID, srv1) \<Rightarrow>
                (case request u sess body (reqEnv env) of
                   None \<Rightarrow> None
                 | Some (res, sess') \<Rightarrow>
                     Some (respond env
                             (if \<not> Stateless (opts srv)
                              then Header_Set ''mcp-session-id'' newID w else w) res,
                           if Stateless (opts srv) then srv1
                           else srv1\<lparr>sessions := (sessions srv1)(newID \<mapsto> sess')\<rparr>))))"
  using assms by (auto simp: handleStream_def Let_def split: sum.splits prod.splits option.splits)

lemma createSession_opts:
  "createSession srv env = Inr (sess, newID, srv1) \<Longrightarrow>
   newID = newUUID env \<and>
   srv1 = (if \<not> Stateless (opts srv) then srv\<lparr>sessions := (sessions srv)(newID \<mapsto> sess)\<rparr> else srv)"
  by (auto simp: createSession_def Let_def split_beta split: if_splits sum.splits option.splits)

text \<open>
  Claim C9. Take a \<open>POST\<close> to the stream endpoint of a stateful server whose body was read
  and that carries no \<open>mcp-session-id\<close>. \<open>IsInitializeRequest\<close> holds exactly when the body
  decodes to a request whose method is \<open>initialize\<close> and whose \<open>jsonrpc\<close> is \<open>2.0\<close> (an absent
  member decodes to the empty string). If it does not hold, the response is 400 with
  the body \<open>missing session id\<close> and the server is unchanged; in particular this is so
  for a body with method \<open>initialize\<close> whose \<open>jsonrpc\<close> is not \<open>2.0\<close>. Hence whenever the
  call changes the session map, the body is an initialize request; and when it is one
  and the call returns after the session was created, the session is filed under the new
  id, which the response carries in its \<open>mcp-session-id\<close> header.
\<close>

theorem initialize_required_without_session:
  assumes "httpMethod r = ''POST''" and "reqBody r = Inr body"
    and "Header_Get r ''mcp-session-id'' = ''''" and "\<not> Stateless (opts srv)"
  shows "(IsInitializeRequest ur body \<longleftrightarrow>
            (\<exists>req. ur body = Some req \<and> Method req = ''initialize'' \<and> JSONRPC req = ''2.0'')) \<and>
         (\<not> IsInitializeRequest ur body \<longrightarrow>
            handleStream ur u srv w r env
              = Some (plainResponse 400 w ''missing session id'', srv)) \<and>
         (\<forall>req. ur body = Some req \<and> Method req = ''initialize'' \<and> JSONRPC req \<noteq> ''2.0'' \<longrightarrow>
            handleStream ur u srv w r env
              = Some (plainResponse 400 w ''missing session id'', srv)) \<and>
         (\<forall>resp srv'. handleStream ur u srv w r env = Some (resp, srv') \<and>
                      sessions srv' \<noteq> sessions srv \<longrightarrow> IsInitializeRequest ur body) \<and>
         (\<forall>resp srv' sess newID srv1.
            IsInitializeRequest ur body \<and> createSession srv env = Inr (sess, newID, srv1) \<and>
            handleStream ur u srv w r env = Some (resp, srv') \<longrightarrow>
              newID = newUUID env \<and> sessions srv' newID \<noteq> None \<and>
              (\<forall>k. k \<noteq> newID \<longrightarrow> sessions srv' k = sessions srv k) \<and>
              (\<exists>h. respHeader resp = Header_Set ''mcp-session-id'' newID h
                    \<or> respHeader resp =
                        Header_Set ''Content-Type'' ''application/json''
                          (Header_Set ''mcp-session-id'' newID h)))"
proof -
  note hs = handleStream_no_session_id[OF assms(1,2,3), of ur u srv w env]
  have eq: "IsInitializeRequest ur body \<longleftrightarrow>
            (\<exists>req. ur body = Some req \<and> Method req = ''initialize'' \<and> JSONRPC req = ''2.0'')"
    by (auto simp: IsInitializeRequest_def split: option.splits)
  have rej: "\<not> IsInitializeRequest ur body \<longrightarrow>
            handleStream ur u srv w r env = Some (plainResponse 400 w ''missing session id'', srv)"
    using assms(4) by (simp add: hs)
  have rej2: "\<forall>req. ur body = Some req \<and> Method req = ''initialize'' \<and> JSONRPC req \<noteq> ''2.0'' \<longrightarrow>
            handleStream ur u srv w r env = Some (plainResponse 400 w ''missing session id'', srv)"
    using rej by (auto simp: IsInitializeRequest_def)
  have only: "\<forall>resp srv'. handleStream ur u srv w r env = Some (resp, srv') \<and>
                      sessions srv' \<noteq> sessions srv \<longrightarrow> IsInitializeRequest ur body"
    using rej by auto
  have made: "\<forall>resp srv' sess newID srv1.
            IsInitializeRequest ur body \<and> createSession srv env = Inr (sess, newID, srv1) \<and>
            handleStream ur u srv w r env = Some (resp, srv') \<longrightarrow>
              newID = newUUID env \<and> sessions srv' newID \<noteq> None \<and>
              (\<forall>k. k \<noteq> newID \<longrightarrow> sessions srv' k = sessions srv k) \<and>
              (\<exists>h. respHeader resp = Header_Set ''mcp-session-id'' newID h
                    \<or> respHeader resp =
                        Header_Set ''Content-Type'' ''application/json''
                          (Header_Set ''mcp-session-id'' newID h))"
  proof (intro allI impI)
    fix resp srv' sess newID srv1
    assume a: "IsInitializeRequest ur body \<and> createSession srv env = Inr (sess, newID, srv1) \<and>
            handleStream ur u srv w r env = Some (resp, srv')"
    from createSession_opts[of srv env sess newID srv1] a assms(4)
    have n: "newID = newUUID env" and s1: "srv1 = srv\<lparr>sessions := (sessions srv)(newID \<mapsto> sess)\<rparr>"
      by auto
    from a obtain res sess' where
      rq: "request u sess body (reqEnv env) = Some (res, sess')"
      and rs: "resp = respond env (Header_Set ''mcp-session-id'' newID w) res"
      and sv: "srv' = srv1\<lparr>sessions := (sessions srv1)(newID \<mapsto> sess')\<rparr>"
      using assms(4) by (auto simp: hs split: option.splits)
    have hd: "\<exists>h. respHeader resp = Header_Set ''mcp-session-id'' newID h
                    \<or> respHeader resp =
                        Header_Set ''Content-Type'' ''application/json''
                          (Header_Set ''mcp-session-id'' newID h)"
      unfolding rs
      by (auto simp: respond_def plainResponse_def writeJSONResponse_def
          split: sum.splits option.splits)
    show "newID = newUUID env \<and> sessions srv' newID \<noteq> None \<and>
              (\<forall>k. k \<noteq> newID \<longrightarrow> sessions srv' k = sessions srv k) \<and>
              (\<exists>h. respHeader resp = Header_Set ''mcp-session-id'' newID h
                    \<or> respHeader resp =
                        Header_Set ''Content-Type'' ''application/json''
                          (Header_Set ''mcp-session-id'' newID h))"
      using n hd by (simp add: sv s1)
  qed
  from eq rej rej2 only made show ?thesis by blast
qed

lemmas stream_eval =
  stateful_server_def demo_decode_request_def demo_decode_envelope_def demo_stream_env_def
  post_request_def Header_Get_def IsInitializeRequest_def handleStream_def createSession_def
  Client_Start_def plainResponse_def writeJSONResponse_def respond_def Header_Set_def
  newSession_def NewClient_def OnClose_def NewMemory_def
  request_def register_def Client_Send_def handleMessage_def storeAndBroadcast_def broadcast_def
  chanRecv_def receiveResponse_def pendingDelete_def Store_def generateID_def Let_def
  zeroTime_def

theorem initialize_required_without_session_witness:
  \<open>httpMethod (post_request ''{"id":1,"method":"initialize"}'') = ''POST'' \<and>
   reqBody (post_request ''{"id":1,"method":"initialize"}'')
     = Inr ''{"id":1,"method":"initialize"}'' \<and>
   Header_Get (post_request ''{"id":1,"method":"initialize"}'') ''mcp-session-id'' = '''' \<and>
   \<not> Stateless (opts stateful_server) \<and>
   demo_decode_request ''{"id":1,"method":"initialize"}''
     = Some \<lparr>JSONRPC = '''', Method = ''initialize'', RequestID = ''1'', Params = []\<rparr> \<and>
   handleStream demo_decode_request demo_decode_envelope stateful_server []
       (post_request ''{"id":1,"method":"initialize"}'') demo_stream_env
     = Some (\<lparr>status = 400, respHeader = [], respBody = ''missing session id''\<rparr>,
             stateful_server) \<and>
   IsInitializeRequest demo_decode_request ''{"jsonrpc":"2.0","id":1,"method":"initialize"}'' \<and>
   map_option fst
     (handleStream demo_decode_request demo_decode_envelope stateful_server []
        (post_request ''{"jsonrpc":"2.0","id":1,"method":"initialize"}'') demo_stream_env)
     = Some \<lparr>status = 200,
             respHeader = [(''mcp-session-id'', [''abc'']),
                           (''Content-Type'', [''application/json''])],
             respBody = ''{"jsonrpc":"2.0","id":1,"result":{}}''\<rparr> \<and>
   map_option (\<lambda>p. dom (sessions (snd p)))
     (handleStream demo_decode_request demo_decode_envelope stateful_server []
        (post_request ''{"jsonrpc":"2.0","id":1,"method":"initialize"}'') demo_stream_env)
     = Some {''abc''}\<close>
proof -
  have a: \<open>httpMethod (post_request ''{"id":1,"method":"initialize"}'') = ''POST''\<close>
    \<open>reqBody (post_request ''{"id":1,"method":"initialize"}'')
       = Inr ''{"id":1,"method":"initialize"}''\<close>
    \<open>Header_Get (post_request ''{"id":1,"method":"initialize"}'') ''mcp-session-id'' = ''''\<close>
    \<open>\<not> Stateless (opts stateful_server)\<close>
    by (simp_all add: post_request_def stateful_server_def Header_Get_def)
  have d: \<open>demo_decode_request ''{"id":1,"method":"initialize"}''
     = Some \<lparr>JSONRPC = '''', Method = ''initialize'', RequestID = ''1'', Params = []\<rparr>\<close>
    by (simp add: demo_decode_request_def)
  have n: \<open>Method \<lparr>JSONRPC = '''', Method = ''initialize'', RequestID = ''1'', Params = []\<rparr>
       = ''initialize'' \<and>
     JSONRPC \<lparr>JSONRPC = '''', Method = ''initialize'', RequestID = ''1'', Params = []\<rparr>
       \<noteq> ''2.0''\<close>
    by simp
  have r: \<open>handleStream demo_decode_request demo_decode_envelope stateful_server []
       (post_request ''{"id":1,"method":"initialize"}'') demo_stream_env
     = Some (\<lparr>status = 400, respHeader = [], respBody = ''missing session id''\<rparr>,
             stateful_server)\<close>
    using initialize_required_without_session [OF a, of demo_decode_request
        demo_decode_envelope "[]" demo_stream_env] d n
    unfolding plainResponse_def by blast
  have i: \<open>IsInitializeRequest demo_decode_request
      ''{"jsonrpc":"2.0","id":1,"method":"initialize"}''\<close>
    by (simp add: IsInitializeRequest_def demo_decode_request_def)
  have ok: \<open>map_option fst
     (handleStream demo_decode_request demo_decode_envelope stateful_server []
        (post_request ''{"jsonrpc":"2.0","id":1,"method":"initialize"}'') demo_stream_env)
     = Some \<lparr>status = 200,
             respHeader = [(''mcp-session-id'', [''abc'']),
                           (''Content-Type'', [''application/json''])],
             respBody = ''{"jsonrpc":"2.0","id":1,"result":{}}''\<rparr>\<close>
    by (simp add: stream_eval)
  have dm: \<open>map_option (\<lambda>p. dom (sessions (snd p)))
     (handleStream demo_decode_request demo_decode_envelope stateful_server []
        (post_request ''{"jsonrpc":"2.0","id":1,"method":"initialize"}'') demo_stream_env)
     = Some {''abc''}\<close>
    by (simp add: stream_eval)
  from a d r i ok dm show ?thesis by blast
qed

section \<open>Newline-JSON filter (internal/jsonfilter)\<close>

abbreviation LF :: char where
  "LF \<equiv> CHR 0x0A"

text \<open>
  The upstream \<open>io.Reader\<close>: what its successive \<open>Read\<close> calls will deliver, chunk by chunk
  (a chunk longer than the caller's buffer is delivered in pieces), or a failure; when
  the list is used up, every further call reports the end of the stream.
\<close>

datatype chunk = Data bytes | Fail string

datatype read_error = EOF | ReadError string

fun sourceRead :: "nat \<Rightarrow> chunk list \<Rightarrow> bytes \<times> read_error option \<times> chunk list" where
  "sourceRead k [] = ([], Some EOF, [])"
| "sourceRead k (Fail e # cs) = ([], Some (ReadError e), cs)"
| "sourceRead k (Data c # cs) =
     (if length c \<le> k then (c, None, cs) else (take k c, None, Data (drop k c) # cs))"

text \<open>
  The struct \<open>Reader\<close>; its field \<open>pending\<close> is \<open>pendingBuf\<close> here (the session has a field of
  the same name).
\<close>

record Reader =
  source :: "chunk list"
  buffer :: bytes
  pendingBuf :: bytes

definition NewReader :: "chunk list \<Rightarrow> Reader" where
  "NewReader src = \<lparr>source = src, buffer = [], pendingBuf = []\<rparr>"

text \<open>
  \<open>bytes.Buffer.ReadString\<close> with the delimiter line feed, on the unread bytes \<open>b\<close>: the
  line up to and including the first line feed and the bytes left unread; or, when there
  is no line feed, all the bytes, none left, and the flag for \<open>io.EOF\<close>.
\<close>

definition ReadString :: "bytes \<Rightarrow> bytes \<times> bytes \<times> bool" where
  "ReadString b =
     (case dropWhile (\<lambda>c. c \<noteq> LF) b of
        [] \<Rightarrow> (b, [], True)
      | d # rest \<Rightarrow> (takeWhile (\<lambda>c. c \<noteq> LF) b @ [d], rest, False))"

lemma ReadString_shorter:
  "ReadString b = (line, rest, False) \<Longrightarrow> length rest < length b"
proof -
  assume a: "ReadString b = (line, rest, False)"
  then obtain d where "dropWhile (\<lambda>c. c \<noteq> LF) b = d # rest"
    by (auto simp: ReadString_def split: list.splits)
  then have "length (dropWhile (\<lambda>c. c \<noteq> LF) b) = Suc (length rest)" by simp
  moreover have "length (dropWhile (\<lambda>c. c \<noteq> LF) b) \<le> length b" by (rule length_dropWhile_le)
  ultimately show ?thesis by simp
qed

text \<open>
  \<open>flushBufferedLines\<close> on the pair of \<open>buffer\<close> and \<open>pending\<close>. \<open>bytes.TrimSpace\<close> is the
  library's; \<open>tr\<close> stands for it. On \<open>io.EOF\<close> the partial line is written back to the
  (by then empty) buffer.
\<close>

function flushBufferedLines :: "(bytes \<Rightarrow> bytes) \<Rightarrow> bytes \<times> bytes \<Rightarrow> bytes \<times> bytes" where
  "flushBufferedLines tr (unread, pend) =
     (case ReadString unread of
        (line, rest, eof) \<Rightarrow>
          if eof then (rest @ line, pend)
          else (let trimmed = tr line in
                if trimmed = [] then flushBufferedLines tr (rest, pend)
                else if hd trimmed = CHR ''{'' then
                  flushBufferedLines tr (rest, pend @ trimmed @ [LF])
                else flushBufferedLines tr (rest, pend)))"
  by pat_completeness auto
termination
  by (relation "measure (\<lambda>(tr, unread, pend). length unread)") (auto dest: ReadString_shorter[OF sym])

declare flushBufferedLines.simps [simp del]

text \<open>\<open>r.pending.Read(p)\<close> with \<open>len(p) = k\<close>, on a non-empty \<open>pending\<close>.\<close>

definition pendingRead :: "nat \<Rightarrow> Reader \<Rightarrow> bytes \<times> read_error option \<times> Reader" where
  "pendingRead k r = (take k (pendingBuf r), None, r\<lparr>pendingBuf := drop k (pendingBuf r)\<rparr>)"

text \<open>
  \<open>Reader.Read(p)\<close> with \<open>len(p) = k\<close>: the bytes stored into \<open>p\<close>, the error, and the reader
  afterwards.
\<close>

definition Read :: "nat \<Rightarrow> (bytes \<Rightarrow> bytes) \<Rightarrow> Reader \<Rightarrow> bytes \<times> read_error option \<times> Reader" where
  "Read k tr r =
     (if pendingBuf r \<noteq> [] then pendingRead k r
      else
        (let (tmp, err, src') = sourceRead k (source r);
             r1 = r\<lparr>source := src'\<rparr>;
             r2 = (if tmp \<noteq> [] then
                     (let (b, p) = flushBufferedLines tr (buffer r1 @ tmp, pendingBuf r1)
                      in r1\<lparr>buffer := b, pendingBuf := p\<rparr>)
                   else r1)
         in if pendingBuf r2 \<noteq> [] then pendingRead k r2
            else if err = Some EOF then
              (let r3 = (if buffer r2 \<noteq> [] then
                           (let remaining = buffer r2;
                                trimmed = tr remaining
                            in if trimmed \<noteq> [] \<and> hd trimmed = CHR ''{''
                               then r2\<lparr>buffer := [], pendingBuf := pendingBuf r2 @ trimmed @ [LF]\<rparr>
                               else r2\<lparr>buffer := []\<rparr>)
                         else r2)
               in if pendingBuf r3 \<noteq> [] then pendingRead k r3
                  else ([], Some EOF, r3))
            else (case err of
                    Some e \<Rightarrow> ([], Some e, r2)
                  | None \<Rightarrow> ([], None, r2))))"

text \<open>
  A consumer that reads with a buffer of \<open>n + 1\<close> bytes until the first error, as
  \<open>io.ReadAll\<close> and \<open>bytes.Buffer.ReadFrom\<close> do: all the bytes read, and that error.
\<close>

fun sourceSize :: "chunk list \<Rightarrow> nat" where
  "sourceSize [] = 0"
| "sourceSize (Data c # cs) = Suc (length c) + sourceSize cs"
| "sourceSize (Fail e # cs) = Suc (sourceSize cs)"

lemma sourceRead_smaller:
  "sourceRead (Suc n) src = (tmp, None, src') \<Longrightarrow> sourceSize src' < sourceSize src"
  by (cases src rule: sourceSize.cases) (auto split: if_splits)

lemma sourceRead_cases:
  "sourceRead k src = (tmp, err, src') \<Longrightarrow>
   (err = None \<and> src \<noteq> []) \<or> (tmp = [] \<and> src' = tl src \<and> err \<noteq> None)"
  by (cases src rule: sourceSize.cases) (auto split: if_splits)

lemma Read_progress:
  assumes "Read (Suc n) tr r = (data, None, r')"
  shows "sourceSize (source r') < sourceSize (source r) \<or>
         (source r' = source r \<and> length (buffer r') < length (buffer r)) \<or>
         (source r' = source r \<and> buffer r' = buffer r \<and>
          length (pendingBuf r') < length (pendingBuf r))"
proof (cases "pendingBuf r \<noteq> []")
  case True
  then show ?thesis using assms by (auto simp: Read_def pendingRead_def)
next
  case False
  obtain tmp err src' where sr: "sourceRead (Suc n) (source r) = (tmp, err, src')"
    by (metis prod_cases3)
  show ?thesis
  proof (cases err)
    case None
    then have lt: "sourceSize src' < sourceSize (source r)"
      using sr by (simp add: sourceRead_smaller)
    have "source r' = src'"
      using assms False sr None
      by (auto simp: Read_def pendingRead_def Let_def split_beta split: if_splits)
    with lt show ?thesis by simp
  next
    case (Some e)
    then have t: "tmp = []" and s': "src' = tl (source r)" and src: "source r = [] \<or> e \<noteq> EOF \<or> True"
      using sourceRead_cases[OF sr] by auto
    show ?thesis
    proof (cases "source r")
      case Nil
      then have e: "err = Some EOF" "src' = []" using sr by auto
      show ?thesis
        using assms False sr t e Nil
        by (auto simp: Read_def pendingRead_def Let_def split: if_splits)
    next
      case (Cons c cs)
      then obtain x where "c = Fail x" "err = Some (ReadError x)"
        using sr Some by (cases c) (auto split: if_splits)
      then show ?thesis
        using assms False sr t Cons
        by (auto simp: Read_def pendingRead_def Let_def split: if_splits)
    qed
  qed
qed

function readAll :: "nat \<Rightarrow> (bytes \<Rightarrow> bytes) \<Rightarrow> Reader \<Rightarrow> bytes \<times> read_error" where
  "readAll n tr r =
     (case Read (Suc n) tr r of
        (data, Some e, r') \<Rightarrow> (data, e)
      | (data, None, r') \<Rightarrow> (case readAll n tr r' of (out, e) \<Rightarrow> (data @ out, e)))"
  by pat_completeness auto
termination
  apply (relation "inv_image (less_than <*lex*> less_than <*lex*> less_than)
         (\<lambda>(n, tr, r). (sourceSize (source r), length (buffer r), length (pendingBuf r)))")
   apply (intro wf_inv_image wf_lex_prod wf_less_than)
  apply (auto dest!: Read_progress[OF sym])
  done

declare readAll.simps [simp del]

text \<open>
  The filter as the specification words it. The input is a sequence of lines, each
  ended by a line feed, and a tail without line feed. \<open>completeLines cur input\<close> are the
  lines of \<open>cur @ input\<close> and \<open>unterminatedTail cur input\<close> is its tail, for a \<open>cur\<close> without
  line feed.
\<close>

fun completeLines :: "bytes \<Rightarrow> bytes \<Rightarrow> bytes list" where
  "completeLines cur [] = []"
| "completeLines cur (c # cs) =
     (if c = LF then (cur @ [c]) # completeLines [] cs else completeLines (cur @ [c]) cs)"

fun unterminatedTail :: "bytes \<Rightarrow> bytes \<Rightarrow> bytes" where
  "unterminatedTail cur [] = cur"
| "unterminatedTail cur (c # cs) =
     (if c = LF then unterminatedTail [] cs else unterminatedTail (cur @ [c]) cs)"

text \<open>
  What one line contributes to the output: the trimmed line and a line feed when the
  trimmed line is not empty and begins with an opening brace, and nothing otherwise.
\<close>

definition lineOutput :: "(bytes \<Rightarrow> bytes) \<Rightarrow> bytes \<Rightarrow> bytes" where
  "lineOutput tr line =
     (if tr line \<noteq> [] \<and> hd (tr line) = CHR ''{'' then tr line @ [LF] else [])"

definition filterOutput :: "(bytes \<Rightarrow> bytes) \<Rightarrow> bytes \<Rightarrow> bytes" where
  "filterOutput tr input =
     concat (map (lineOutput tr) (completeLines [] input)) @
     (if unterminatedTail [] input \<noteq> [] then lineOutput tr (unterminatedTail [] input) else [])"

text \<open>The bytes that a source without failures still holds.\<close>

fun unread :: "chunk list \<Rightarrow> bytes" where
  "unread [] = []"
| "unread (Data c # cs) = c @ unread cs"
| "unread (Fail e # cs) = unread cs"

fun allData :: "chunk list \<Rightarrow> bool" where
  "allData [] = True"
| "allData (Data c # cs) = allData cs"
| "allData (Fail e # cs) = False"

text \<open>
  The ASCII part of \<open>bytes.TrimSpace\<close> (space, tab, line feed, vertical tab, form feed and
  carriage return), for concrete inputs.
\<close>

definition asciiSpace :: "char \<Rightarrow> bool" where
  "asciiSpace c = (c \<in> {CHR '' '', CHR 0x09, CHR 0x0A, CHR 0x0B, CHR 0x0C, CHR 0x0D})"

definition trimASCII :: "bytes \<Rightarrow> bytes" where
  "trimASCII b = rev (dropWhile asciiSpace (rev (dropWhile asciiSpace b)))"

section \<open>Newline-JSON filter: properties\<close>

lemma ReadString_no_LF: "LF \<notin> set b \<Longrightarrow> ReadString b = (b, [], True)"
proof -
  assume "LF \<notin> set b"
  then have d: "dropWhile (\<lambda>c. c \<noteq> LF) b = []" by (induction b) auto
  show ?thesis unfolding ReadString_def d by simp
qed

lemma ReadString_LF:
  "LF \<notin> set pre \<Longrightarrow> ReadString (pre @ LF # rest) = (pre @ [LF], rest, False)"
proof -
  assume a: "LF \<notin> set pre"
  then have d: "dropWhile (\<lambda>c. c \<noteq> LF) (pre @ LF # rest) = LF # rest"
    by (induction pre) auto
  have t: "takeWhile (\<lambda>c. c \<noteq> LF) (pre @ LF # rest) = pre"
    using a by (induction pre) auto
  show ?thesis unfolding ReadString_def d t by simp
qed

lemma lines_no_LF:
  "LF \<notin> set b \<Longrightarrow> completeLines cur b = [] \<and> unterminatedTail cur b = cur @ b"
  by (induction b arbitrary: cur) auto

lemma lines_LF:
  "LF \<notin> set pre \<Longrightarrow>
   completeLines cur (pre @ LF # rest) = (cur @ pre @ [LF]) # completeLines [] rest \<and>
   unterminatedTail cur (pre @ LF # rest) = unterminatedTail [] rest"
  by (induction pre arbitrary: cur) auto

lemma lines_shift:
  "LF \<notin> set c2 \<Longrightarrow>
   completeLines c1 (c2 @ x) = completeLines (c1 @ c2) x \<and>
   unterminatedTail c1 (c2 @ x) = unterminatedTail (c1 @ c2) x"
  by (induction c2 arbitrary: c1) auto

lemma tail_no_LF: "LF \<notin> set cur \<Longrightarrow> LF \<notin> set (unterminatedTail cur x)"
  by (induction x arbitrary: cur) auto

lemma lines_append:
  "completeLines cur (x @ y) = completeLines cur x @ completeLines (unterminatedTail cur x) y \<and>
   unterminatedTail cur (x @ y) = unterminatedTail (unterminatedTail cur x) y"
  by (induction x arbitrary: cur) auto

lemma lines_rejoin:
  "concat (completeLines cur x) @ unterminatedTail cur x = cur @ x"
  by (induction x arbitrary: cur) auto

lemma lines_shape:
  "LF \<notin> set cur \<Longrightarrow> l \<in> set (completeLines cur x) \<Longrightarrow>
   \<exists>t. l = t @ [LF] \<and> LF \<notin> set t"
proof (induction x arbitrary: cur)
  case Nil
  then show ?case by simp
next
  case (Cons c cs)
  show ?case
  proof (cases "c = LF")
    case True
    then have "l = cur @ [LF] \<or> l \<in> set (completeLines [] cs)"
      using Cons.prems(2) by auto
    then show ?thesis
    proof
      assume "l = cur @ [LF]"
      then show ?thesis using Cons.prems(1) by blast
    next
      assume "l \<in> set (completeLines [] cs)"
      then show ?thesis using Cons.IH[of "[]"] by simp
    qed
  next
    case False
    then have "l \<in> set (completeLines (cur @ [c]) cs)" using Cons.prems(2) by simp
    moreover have "LF \<notin> set (cur @ [c])" using False Cons.prems(1) by auto
    ultimately show ?thesis using Cons.IH[of "cur @ [c]"] by blast
  qed
qed

lemma split_at_LF:
  "LF \<in> set b \<Longrightarrow> \<exists>pre rest. b = pre @ LF # rest \<and> LF \<notin> set pre"
  by (meson split_list_first)

lemma flushBufferedLines_lines:
  "flushBufferedLines tr (b, p) =
     (unterminatedTail [] b, p @ concat (map (lineOutput tr) (completeLines [] b)))"
proof (induction b arbitrary: p rule: length_induct)
  case (1 b)
  show ?case
  proof (cases "LF \<in> set b")
    case False
    then show ?thesis
      using ReadString_no_LF[of b] lines_no_LF[of b "[]"]
      by (simp add: flushBufferedLines.simps)
  next
    case True
    then obtain pre rest where b: "b = pre @ LF # rest" and n: "LF \<notin> set pre"
      using split_at_LF by blast
    have rs: "ReadString b = (pre @ [LF], rest, False)"
      unfolding b by (rule ReadString_LF[OF n])
    have ln: "completeLines [] b = (pre @ [LF]) # completeLines [] rest"
      "unterminatedTail [] b = unterminatedTail [] rest"
      unfolding b using lines_LF[OF n, of "[]" rest] by simp_all
    have sh: "length rest < length b" unfolding b by simp
    have ih: "flushBufferedLines tr (rest, q) =
        (unterminatedTail [] rest, q @ concat (map (lineOutput tr) (completeLines [] rest)))" for q
      using 1 sh by blast
    show ?thesis
      by (simp add: flushBufferedLines.simps[of tr b p] rs ln ih
          lineOutput_def[of tr "pre @ [LF]"] Let_def)
  qed
qed

text \<open>What a reader without pending failures will still emit.\<close>

definition expected :: "(bytes \<Rightarrow> bytes) \<Rightarrow> Reader \<Rightarrow> bytes" where
  "expected tr r =
     pendingBuf r @
     concat (map (lineOutput tr) (completeLines (buffer r) (unread (source r)))) @
     (if unterminatedTail (buffer r) (unread (source r)) \<noteq> []
      then lineOutput tr (unterminatedTail (buffer r) (unread (source r))) else [])"

lemma pendingRead_expected:
  "pendingRead k r = (data, err, r') \<Longrightarrow>
   err = None \<and> source r' = source r \<and> buffer r' = buffer r \<and>
   expected tr r = data @ expected tr r'"
  by (auto simp: pendingRead_def expected_def)

lemma Read_step:
  assumes inv: "LF \<notin> set (buffer r)" and ad: "allData (source r)"
    and rd: "Read (Suc n) tr r = (data, err, r')"
  shows "(err = None \<and> LF \<notin> set (buffer r') \<and> allData (source r') \<and>
          expected tr r = data @ expected tr r') \<or>
         (err = Some EOF \<and> data = [] \<and> expected tr r = [])"
proof (cases "pendingBuf r \<noteq> []")
  case True
  then have "pendingRead (Suc n) r = (data, err, r')" using rd by (simp add: Read_def)
  from pendingRead_expected[OF this, of tr] inv ad show ?thesis by simp
next
  case False
  then have pe: "pendingBuf r = []" by simp
  show ?thesis
  proof (cases "source r")
    case Nil
    have un: "unread (source r) = []" by (simp add: Nil)
    show ?thesis
    proof (cases "buffer r \<noteq> [] \<and> tr (buffer r) \<noteq> [] \<and> hd (tr (buffer r)) = CHR ''{''")
      case True
      let ?r3 = "r\<lparr>source := [], buffer := [], pendingBuf := tr (buffer r) @ [LF]\<rparr>"
      have "Read (Suc n) tr r = pendingRead (Suc n) ?r3"
        using True pe Nil by (simp add: Read_def Let_def)
      then have pr: "pendingRead (Suc n) ?r3 = (data, err, r')" using rd by simp
      have "expected tr r = expected tr ?r3"
        using True by (simp add: expected_def pe un lineOutput_def)
      with pendingRead_expected[OF pr, of tr] show ?thesis by simp
    next
      case F: False
      have "Read (Suc n) tr r = ([], Some EOF, if buffer r \<noteq> [] then r\<lparr>source := [], buffer := []\<rparr>
                                               else r\<lparr>source := []\<rparr>)"
        using F pe Nil by (auto simp: Read_def Let_def)
      moreover have "expected tr r = []"
        using F by (auto simp: expected_def pe un lineOutput_def)
      ultimately show ?thesis using rd by simp
    qed
  next
    case (Cons c cs)
    then obtain d where c: "c = Data d" using ad by (cases c) auto
    define tmp where "tmp = (if length d \<le> Suc n then d else take (Suc n) d)"
    define src' where "src' = (if length d \<le> Suc n then cs else Data (drop (Suc n) d) # cs)"
    have sr: "sourceRead (Suc n) (source r) = (tmp, None, src')"
      by (simp add: Cons c tmp_def src'_def)
    have un: "unread (source r) = tmp @ unread src'"
      by (simp add: Cons c tmp_def src'_def)
    have ad': "allData src'" using ad by (simp add: Cons c src'_def)
    show ?thesis
    proof (cases "tmp = []")
      case True
      have "Read (Suc n) tr r = ([], None, r\<lparr>source := src'\<rparr>)"
        using True pe sr by (simp add: Read_def Let_def)
      moreover have "expected tr r = expected tr (r\<lparr>source := src'\<rparr>)"
        using True by (simp add: expected_def un)
      ultimately show ?thesis using rd inv ad' by simp
    next
      case False
      define b' where "b' = unterminatedTail (buffer r) tmp"
      define p' where "p' = concat (map (lineOutput tr) (completeLines (buffer r) tmp))"
      have fl: "flushBufferedLines tr (buffer r @ tmp, []) = (b', p')"
        using lines_shift[OF inv, of "[]" tmp]
        by (simp add: flushBufferedLines_lines b'_def p'_def)
      let ?r2 = "r\<lparr>source := src', buffer := b', pendingBuf := p'\<rparr>"
      have inv': "LF \<notin> set b'" unfolding b'_def by (rule tail_no_LF[OF inv])
      have ex: "expected tr r = expected tr ?r2"
        using lines_append[of "buffer r" tmp "unread src'"]
        by (simp add: expected_def pe un b'_def p'_def)
      show ?thesis
      proof (cases "p' = []")
        case True
        have "Read (Suc n) tr r = ([], None, ?r2)"
          using False True pe sr fl by (simp add: Read_def Let_def)
        then show ?thesis using rd ex inv' ad' by auto
      next
        case F2: False
        have "Read (Suc n) tr r = pendingRead (Suc n) ?r2"
          using False F2 pe sr fl by (simp add: Read_def Let_def)
        then have pr: "pendingRead (Suc n) ?r2 = (data, err, r')" using rd by simp
        from pendingRead_expected[OF pr, of tr] ex inv' ad' show ?thesis by simp
      qed
    qed
  qed
qed

lemma readAll_expected:
  "LF \<notin> set (buffer r) \<Longrightarrow> allData (source r) \<Longrightarrow> readAll n tr r = (expected tr r, EOF)"
proof (induction n tr r rule: readAll.induct)
  case (1 n tr r)
  obtain data err r' where rd: "Read (Suc n) tr r = (data, err, r')"
    by (metis prod_cases3)
  from Read_step[OF "1.prems" rd]
  show ?case
  proof
    assume a: "err = None \<and> LF \<notin> set (buffer r') \<and> allData (source r') \<and>
          expected tr r = data @ expected tr r'"
    then have e: "err = None" by simp
    have "readAll n tr r' = (expected tr r', EOF)"
      using "1.IH"[OF rd[symmetric] refl e] a by simp
    then show ?thesis
      using a rd by (simp add: readAll.simps[of n tr r])
  next
    assume "err = Some EOF \<and> data = [] \<and> expected tr r = []"
    then show ?thesis
      using rd by (simp add: readAll.simps[of n tr r])
  qed
qed

lemma unread_Data: "unread (map Data chunks) = concat chunks"
  by (induction chunks) auto

lemma allData_Data: "allData (map Data chunks)"
  by (induction chunks) auto

text \<open>
  Claim C4. For every input byte stream, cut into chunks in any way and read through the
  filter with any buffer size until the end of the stream, the bytes that the filter
  delivers are the concatenation, in order, of the outputs of the input's lines, where
  the input is the sequence of its lines ended by a line feed followed by the tail that
  no line feed ends; the output of a line is the trimmed line followed by one line feed
  when the trimmed line is non-empty and begins with an opening brace, and is empty
  otherwise; and a non-empty tail is treated as a line, an empty one gives nothing.
  So every line yields no output line or one, and no two lines are merged.
\<close>

theorem filter_emits_json_lines:
  "readAll n tr (NewReader (map Data chunks)) = (filterOutput tr (concat chunks), EOF) \<and>
   filterOutput tr input =
     concat (map (lineOutput tr) (completeLines [] input)) @
     (if unterminatedTail [] input \<noteq> [] then lineOutput tr (unterminatedTail [] input) else []) \<and>
   concat (completeLines [] input) @ unterminatedTail [] input = input \<and>
   (\<forall>l \<in> set (completeLines [] input). \<exists>t. l = t @ [LF] \<and> LF \<notin> set t) \<and>
   LF \<notin> set (unterminatedTail [] input) \<and>
   (\<forall>l. lineOutput tr l = (if tr l \<noteq> [] \<and> hd (tr l) = CHR ''{'' then tr l @ [LF] else []))"
proof -
  have "readAll n tr (NewReader (map Data chunks)) = (expected tr (NewReader (map Data chunks)), EOF)"
    by (rule readAll_expected) (simp_all add: NewReader_def allData_Data)
  moreover have "expected tr (NewReader (map Data chunks)) = filterOutput tr (concat chunks)"
    by (simp add: expected_def NewReader_def filterOutput_def unread_Data)
  ultimately have a: "readAll n tr (NewReader (map Data chunks)) = (filterOutput tr (concat chunks), EOF)"
    by simp
  have b: "concat (completeLines [] input) @ unterminatedTail [] input = input"
    using lines_rejoin[of "[]" input] by simp
  have c: "\<forall>l \<in> set (completeLines [] input). \<exists>t. l = t @ [LF] \<and> LF \<notin> set t"
    using lines_shape[of "[]" _ input] by simp
  have d: "LF \<notin> set (unterminatedTail [] input)"
    using tail_no_LF[of "[]" input] by simp
  from a b c d show ?thesis by (simp add: filterOutput_def lineOutput_def)
qed

theorem filter_emits_json_lines_witness:
  \<open>readAll 3 trimASCII (NewReader (map Data
      [''{"valid": "json"}'' @ [LF] @ ''This is not'',
       '' JSON'' @ [LF] @ ''  {"another": "valid"} '' @ [LF] @ [LF] @ ''Error: something went wrong'' @ [LF],
       ''{"third":'', '' "json"}'']))
   = (''{"valid": "json"}'' @ [LF] @ ''{"another": "valid"}'' @ [LF] @ ''{"third": "json"}'' @ [LF],
      EOF)\<close>
proof -
  have \<open>filterOutput trimASCII (concat
      [''{"valid": "json"}'' @ [LF] @ ''This is not'',
       '' JSON'' @ [LF] @ ''  {"another": "valid"} '' @ [LF] @ [LF] @ ''Error: something went wrong'' @ [LF],
       ''{"third":'', '' "json"}''])
    = ''{"valid": "json"}'' @ [LF] @ ''{"another": "valid"}'' @ [LF] @ ''{"third": "json"}'' @ [LF]\<close>
    by (simp add: filterOutput_def lineOutput_def trimASCII_def asciiSpace_def)
  then show ?thesis
    using filter_emits_json_lines [of 3 trimASCII
      \<open>[''{"valid": "json"}'' @ [LF] @ ''This is not'',
       '' JSON'' @ [LF] @ ''  {"another": "valid"} '' @ [LF] @ [LF] @ ''Error: something went wrong'' @ [LF],
       ''{"third":'', '' "json"}'']\<close>]
    by (simp only: )
qed

section \<open>Bridge (internal/proxy/bridge.go)\<close>

text \<open>
  The fields of \<open>Bridge\<close> that \<open>forward\<close> uses: the two counters (\<open>atomic.Uint64\<close>, so
  64-bit words) and the two maps from proxy ids to original raw ids.
\<close>

record Bridge =
  leftSeq :: "64 word"
  rightSeq :: "64 word"
  leftMap :: "string \<rightharpoonup> bytes"
  rightMap :: "string \<rightharpoonup> bytes"

definition NewBridge :: Bridge where
  "NewBridge = \<lparr>leftSeq = 0, rightSeq = 0, leftMap = Map.empty, rightMap = Map.empty\<rparr>"

text \<open>
  A \<open>map[string]json.RawMessage\<close>: the list of its entries, every key once. Reading a key
  is \<open>map_of\<close>, assigning to a key is \<open>AList.update\<close>.
\<close>

type_synonym rawMap = "(string \<times> bytes) list"

text \<open>
  The parts of \<open>encoding/json\<close> that \<open>forward\<close> relies on and that this repository does not
  contain: \<open>json.Unmarshal\<close> into a map of raw messages and \<open>json.Unmarshal\<close> of a raw token
  into a Go string (\<open>None\<close> is the error in each case), the scanner's verdict on whether
  bytes are valid JSON, and the escaping of a string that has unsafe bytes.
\<close>

record codec =
  unmarshalEnvelope :: "bytes \<Rightarrow> rawMap option"
  unmarshalString :: "bytes \<Rightarrow> string option"
  validJSON :: "bytes \<Rightarrow> bool"
  escapeString :: "string \<Rightarrow> bytes"

definition strQuote :: "string \<Rightarrow> bytes" where
  "strQuote s = [CHR 0x22] @ s @ [CHR 0x22]"

text \<open>
  What \<open>json.Marshal\<close> does with a \<open>json.RawMessage\<close>, which is a \<open>Marshaler\<close>: the encoder
  passes its bytes through \<open>compact\<close> with HTML escaping on. On valid JSON that drops the
  white space outside string literals and replaces each of the bytes \<open><\<close>, \<open>>\<close> and \<open>&\<close>
  by a backslash, \<open>u00\<close> and its two hexadecimal digits, and the UTF-8 encodings of
  U+2028 and U+2029 by a backslash and \<open>u2028\<close> or \<open>u2029\<close>. \<open>q\<close> tells whether the position is
  inside a string literal and \<open>e\<close> whether it follows a backslash there.
\<close>

definition hexDigit :: "nat \<Rightarrow> char" where
  "hexDigit n = ''0123456789abcdef'' ! n"

fun compact :: "bool \<Rightarrow> bool \<Rightarrow> bytes \<Rightarrow> bytes" where
  "compact q e [] = []"
| "compact q e (c # cs) =
     (let q' = (if q then e \<or> c \<noteq> CHR 0x22 else c = CHR 0x22);
          e' = (q \<and> \<not> e \<and> c = CHR 0x5C)
      in if c = CHR ''<'' \<or> c = CHR ''>'' \<or> c = CHR ''&''
         then [CHR 0x5C, CHR ''u'', CHR ''0'', CHR ''0'',
               hexDigit ((of_char c :: nat) div 16), hexDigit ((of_char c :: nat) mod 16)]
              @ compact q' e' cs
         else if c = CHR 0xE2 \<and> 2 \<le> length cs \<and> cs ! 0 = CHR 0x80 \<and>
                 (cs ! 1 = CHR 0xA8 \<or> cs ! 1 = CHR 0xA9)
         then [CHR 0x5C, CHR ''u'', CHR ''2'', CHR ''0'', CHR ''2'',
               hexDigit ((of_char (cs ! 1) :: nat) mod 16)]
              @ compact q False (drop 2 cs)
         else if \<not> q \<and> c \<in> {CHR '' '', CHR 0x09, CHR 0x0A, CHR 0x0D}
         then compact q' e' cs
         else c # compact q' e' cs)"

text \<open>
  \<open>json.Marshal\<close> of a \<open>map[string]json.RawMessage\<close>: it fails when a value is not valid
  JSON; otherwise the entries are written in the byte order of their keys, each as the
  encoded key, a colon and the compacted value.
\<close>

definition Marshal :: "codec \<Rightarrow> rawMap \<Rightarrow> bytes option" where
  "Marshal cd m =
     (if list_all (\<lambda>kv. validJSON cd (snd kv)) m
      then Some (''{'' @ commaJoin (map (\<lambda>kv. encodeString (escapeString cd) (fst kv) @ '':'' @
                                          compact False False (snd kv))
                                   (sort_key fst m)) @ ''}'')
      else None)"

text \<open>\<open>fmt.Sprintf("proxy-%d", n)\<close> for the counter value \<open>n\<close>.\<close>

definition proxyIDOf :: "64 word \<Rightarrow> string" where
  "proxyIDOf n = ''proxy-'' @ show_nat (unat n)"

text \<open>
  \<open>forward\<close> on the counter and the two maps it is given. The first component of the
  result is the message sent to the other transport, if one is sent.
\<close>

definition forward ::
  "codec \<Rightarrow> bytes \<Rightarrow> 64 word \<times> (string \<rightharpoonup> bytes) \<times> (string \<rightharpoonup> bytes)
     \<Rightarrow> bytes option \<times> 64 word \<times> (string \<rightharpoonup> bytes) \<times> (string \<rightharpoonup> bytes)"
where
  "forward cd msg st =
     (case st of (seq, requestMap, responseMap) \<Rightarrow>
      (case unmarshalEnvelope cd msg of
         None \<Rightarrow> (Some msg, seq, requestMap, responseMap)
       | Some envelope \<Rightarrow>
           (case map_of envelope ''id'' of
              None \<Rightarrow> (Some msg, seq, requestMap, responseMap)
            | Some origID \<Rightarrow>
                if map_of envelope ''method'' \<noteq> None then
                  (let seq' = seq + 1;
                       proxyID = proxyIDOf seq';
                       envelope' = AList.update ''id'' (strQuote proxyID) envelope;
                       requestMap' = requestMap(proxyID \<mapsto> origID)
                   in case Marshal cd envelope' of
                        None \<Rightarrow> (None, seq', requestMap'(proxyID := None), responseMap)
                      | Some raw \<Rightarrow> (Some raw, seq', requestMap', responseMap))
                else
                  (case unmarshalString cd origID of
                     None \<Rightarrow> (Some msg, seq, requestMap, responseMap)
                   | Some ident \<Rightarrow>
                       (case responseMap ident of
                          Some orig \<Rightarrow>
                            (case Marshal cd (AList.update ''id'' orig envelope) of
                               Some raw \<Rightarrow>
                                 (Some raw, seq, requestMap, responseMap(ident := None))
                             | None \<Rightarrow> (Some msg, seq, requestMap, responseMap))
                        | None \<Rightarrow> (Some msg, seq, requestMap, responseMap))))))"

text \<open>
  \<open>onLeftMessage\<close> and \<open>onRightMessage\<close>: the message sent to the other side, and the
  bridge afterwards.
\<close>

definition onLeftMessage :: "codec \<Rightarrow> Bridge \<Rightarrow> bytes \<Rightarrow> bytes option \<times> Bridge" where
  "onLeftMessage cd b msg =
     (case forward cd msg (leftSeq b, leftMap b, rightMap b) of
        (sent, seq, requestMap, responseMap) \<Rightarrow>
          (sent, b\<lparr>leftSeq := seq, leftMap := requestMap, rightMap := responseMap\<rparr>))"

definition onRightMessage :: "codec \<Rightarrow> Bridge \<Rightarrow> bytes \<Rightarrow> bytes option \<times> Bridge" where
  "onRightMessage cd b msg =
     (case forward cd msg (rightSeq b, rightMap b, leftMap b) of
        (sent, seq, requestMap, responseMap) \<Rightarrow>
          (sent, b\<lparr>rightSeq := seq, rightMap := requestMap, leftMap := responseMap\<rparr>))"

text \<open>A run of the bridge: the messages arrive one after the other, each from one side.\<close>

datatype side = Left | Right

definition bridgeStep :: "codec \<Rightarrow> Bridge \<Rightarrow> side \<times> bytes \<Rightarrow> bytes option \<times> Bridge" where
  "bridgeStep cd b ev =
     (case ev of (Left, msg) \<Rightarrow> onLeftMessage cd b msg | (Right, msg) \<Rightarrow> onRightMessage cd b msg)"

fun bridgeRun :: "codec \<Rightarrow> Bridge \<Rightarrow> (side \<times> bytes) list \<Rightarrow> Bridge" where
  "bridgeRun cd b [] = b"
| "bridgeRun cd b (ev # evs) = bridgeRun cd (snd (bridgeStep cd b ev)) evs"

definition seqOf :: "side \<Rightarrow> Bridge \<Rightarrow> 64 word" where
  "seqOf d b = (case d of Left \<Rightarrow> leftSeq b | Right \<Rightarrow> rightSeq b)"

definition mapOf :: "side \<Rightarrow> Bridge \<Rightarrow> (string \<rightharpoonup> bytes)" where
  "mapOf d b = (case d of Left \<Rightarrow> leftMap b | Right \<Rightarrow> rightMap b)"

definition other :: "side \<Rightarrow> side" where
  "other d = (case d of Left \<Rightarrow> Right | Right \<Rightarrow> Left)"

text \<open>
  The proxy ids that a run allocates for the requests of side \<open>d\<close>, in order: an id is
  allocated exactly when the counter of that side moves.
\<close>

fun allocated :: "codec \<Rightarrow> side \<Rightarrow> Bridge \<Rightarrow> (side \<times> bytes) list \<Rightarrow> string list" where
  "allocated cd d b [] = []"
| "allocated cd d b (ev # evs) =
     (let b' = snd (bridgeStep cd b ev)
      in (if seqOf d b' \<noteq> seqOf d b then [proxyIDOf (seqOf d b')] else [])
         @ allocated cd d b' evs)"

text \<open>The three kinds of message that \<open>forward\<close> tells apart.\<close>

definition isRequest :: "codec \<Rightarrow> bytes \<Rightarrow> bool" where
  "isRequest cd msg =
     (case unmarshalEnvelope cd msg of
        None \<Rightarrow> False
      | Some envelope \<Rightarrow> map_of envelope ''id'' \<noteq> None \<and> map_of envelope ''method'' \<noteq> None)"

definition isResponseTo :: "codec \<Rightarrow> string \<Rightarrow> bytes \<Rightarrow> bool" where
  "isResponseTo cd ident msg =
     (case unmarshalEnvelope cd msg of
        None \<Rightarrow> False
      | Some envelope \<Rightarrow>
          map_of envelope ''method'' = None \<and>
          (case map_of envelope ''id'' of
             None \<Rightarrow> False
           | Some raw \<Rightarrow> unmarshalString cd raw = Some ident))"

text \<open>Decimal numerals back to numbers.\<close>

definition digit_value :: "char \<Rightarrow> nat" where
  "digit_value c = of_char c - 48"

definition read_nat :: "string \<Rightarrow> nat" where
  "read_nat s = foldl (\<lambda>a c. 10 * a + digit_value c) 0 s"

section \<open>Bridge: properties\<close>

lemma digit_value_digit_char: "d < 10 \<Longrightarrow> digit_value (digit_char d) = d"
proof -
  assume "d < 10"
  then have "d \<in> {0, 1, 2, 3, 4, 5, 6, 7, 8, 9}" by auto
  then show ?thesis
    by (auto simp: digit_value_def digit_char_def)
qed

lemma read_nat_snoc: "read_nat (s @ [c]) = 10 * read_nat s + digit_value c"
  by (simp add: read_nat_def)

lemma read_show_nat: "read_nat (show_nat n) = n"
proof (induction n rule: show_nat.induct)
  case (1 n)
  show ?case
  proof (cases "n < 10")
    case True
    then show ?thesis
      by (simp add: show_nat.simps[of n] read_nat_def digit_value_digit_char)
  next
    case False
    then have "read_nat (show_nat (n div 10)) = n div 10" using 1 by simp
    with False show ?thesis
      by (simp add: show_nat.simps[of n] read_nat_snoc digit_value_digit_char)
  qed
qed

lemma show_nat_inj: "show_nat n = show_nat m \<Longrightarrow> n = m"
  by (metis read_show_nat)

lemma proxyIDOf_inj: "proxyIDOf v = proxyIDOf w \<Longrightarrow> v = w"
  using show_nat_inj[of "unat v" "unat w"] by (simp add: proxyIDOf_def word_unat_eq_iff)

text \<open>The number of requests that side \<open>d\<close> sends in a run.\<close>

definition requestCount :: "codec \<Rightarrow> side \<Rightarrow> (side \<times> bytes) list \<Rightarrow> nat" where
  "requestCount cd d evs = length (filter (\<lambda>ev. fst ev = d \<and> isRequest cd (snd ev)) evs)"

lemma forward_request:
  assumes "unmarshalEnvelope cd msg = Some envelope" "map_of envelope ''id'' = Some origID"
    "map_of envelope ''method'' \<noteq> None"
  shows "forward cd msg (seq, requestMap, responseMap) =
     (Marshal cd (AList.update ''id'' (strQuote (proxyIDOf (seq + 1))) envelope),
      seq + 1,
      (case Marshal cd (AList.update ''id'' (strQuote (proxyIDOf (seq + 1))) envelope) of
         None \<Rightarrow> requestMap(proxyIDOf (seq + 1) := None)
       | Some raw \<Rightarrow> requestMap(proxyIDOf (seq + 1) \<mapsto> origID)),
      responseMap)"
  using assms by (auto simp: forward_def Let_def split: option.splits)

lemma forward_other:
  assumes "\<not> isRequest cd msg"
  shows "\<exists>sent responseMap'. forward cd msg (seq, requestMap, responseMap) =
           (sent, seq, requestMap, responseMap') \<and>
         (\<forall>ident. \<not> isResponseTo cd ident msg \<longrightarrow> responseMap' ident = responseMap ident)"
  using assms
  by (auto simp: forward_def isRequest_def isResponseTo_def Let_def split: option.splits)

lemma forward_response:
  assumes "unmarshalEnvelope cd msg = Some envelope" "map_of envelope ''id'' = Some raw"
    "map_of envelope ''method'' = None" "unmarshalString cd raw = Some ident"
    "responseMap ident = Some orig" "Marshal cd (AList.update ''id'' orig envelope) = Some back"
  shows "forward cd msg (seq, requestMap, responseMap) =
           (Some back, seq, requestMap, responseMap(ident := None))"
  using assms by (simp add: forward_def)

lemma step_request:
  assumes "unmarshalEnvelope cd msg = Some envelope" "map_of envelope ''id'' = Some origID"
    "map_of envelope ''method'' \<noteq> None"
  shows "fst (bridgeStep cd b (d, msg)) =
           Marshal cd (AList.update ''id'' (strQuote (proxyIDOf (seqOf d b + 1))) envelope)"
    and "seqOf d (snd (bridgeStep cd b (d, msg))) = seqOf d b + 1"
    and "seqOf (other d) (snd (bridgeStep cd b (d, msg))) = seqOf (other d) b"
    and "mapOf (other d) (snd (bridgeStep cd b (d, msg))) = mapOf (other d) b"
    and "mapOf d (snd (bridgeStep cd b (d, msg))) =
           (case Marshal cd (AList.update ''id'' (strQuote (proxyIDOf (seqOf d b + 1))) envelope) of
              None \<Rightarrow> (mapOf d b)(proxyIDOf (seqOf d b + 1) := None)
            | Some raw \<Rightarrow> (mapOf d b)(proxyIDOf (seqOf d b + 1) \<mapsto> origID))"
proof -
  note f = forward_request[OF assms]
  note defs = bridgeStep_def onLeftMessage_def onRightMessage_def seqOf_def mapOf_def other_def
  show "fst (bridgeStep cd b (d, msg)) =
           Marshal cd (AList.update ''id'' (strQuote (proxyIDOf (seqOf d b + 1))) envelope)"
    by (cases d) (simp_all add: defs f)
  show "seqOf d (snd (bridgeStep cd b (d, msg))) = seqOf d b + 1"
    by (cases d) (simp_all add: defs f)
  show "seqOf (other d) (snd (bridgeStep cd b (d, msg))) = seqOf (other d) b"
    by (cases d) (simp_all add: defs f)
  show "mapOf (other d) (snd (bridgeStep cd b (d, msg))) = mapOf (other d) b"
    by (cases d) (simp_all add: defs f)
  show "mapOf d (snd (bridgeStep cd b (d, msg))) =
           (case Marshal cd (AList.update ''id'' (strQuote (proxyIDOf (seqOf d b + 1))) envelope) of
              None \<Rightarrow> (mapOf d b)(proxyIDOf (seqOf d b + 1) := None)
            | Some raw \<Rightarrow> (mapOf d b)(proxyIDOf (seqOf d b + 1) \<mapsto> origID))"
    by (cases d) (simp_all add: defs f split: option.splits)
qed

lemma step_not_request:
  assumes "\<not> isRequest cd msg"
  shows "seqOf d' (snd (bridgeStep cd b (d, msg))) = seqOf d' b"
    and "mapOf d (snd (bridgeStep cd b (d, msg))) = mapOf d b"
    and "\<not> isResponseTo cd ident msg \<Longrightarrow>
         mapOf (other d) (snd (bridgeStep cd b (d, msg))) ident = mapOf (other d) b ident"
proof -
  obtain sl rl where l: "forward cd msg (leftSeq b, leftMap b, rightMap b)
      = (sl, leftSeq b, leftMap b, rl)"
    "\<forall>ident. \<not> isResponseTo cd ident msg \<longrightarrow> rl ident = rightMap b ident"
    using forward_other[OF assms, of "leftSeq b" "leftMap b" "rightMap b"] by blast
  obtain sr rr where r: "forward cd msg (rightSeq b, rightMap b, leftMap b)
      = (sr, rightSeq b, rightMap b, rr)"
    "\<forall>ident. \<not> isResponseTo cd ident msg \<longrightarrow> rr ident = leftMap b ident"
    using forward_other[OF assms, of "rightSeq b" "rightMap b" "leftMap b"] by blast
  show "seqOf d' (snd (bridgeStep cd b (d, msg))) = seqOf d' b"
    using l r by (cases d; cases d')
      (simp_all add: bridgeStep_def onLeftMessage_def onRightMessage_def seqOf_def)
  show "mapOf d (snd (bridgeStep cd b (d, msg))) = mapOf d b"
    using l r by (cases d)
      (simp_all add: bridgeStep_def onLeftMessage_def onRightMessage_def mapOf_def)
  show "\<not> isResponseTo cd ident msg \<Longrightarrow>
         mapOf (other d) (snd (bridgeStep cd b (d, msg))) ident = mapOf (other d) b ident"
    using l r by (cases d)
      (simp_all add: bridgeStep_def onLeftMessage_def onRightMessage_def mapOf_def other_def)
qed

lemma isRequest_cases:
  "isRequest cd msg \<Longrightarrow>
   \<exists>envelope origID. unmarshalEnvelope cd msg = Some envelope \<and> map_of envelope ''id'' = Some origID \<and>
      map_of envelope ''method'' \<noteq> None"
  by (auto simp: isRequest_def split: option.splits)

lemma other_neq: "other d \<noteq> d"
  by (cases d) (simp_all add: other_def)

lemma other_eq: "d' \<noteq> d \<Longrightarrow> d' = other d"
  by (cases d; cases d') (simp_all add: other_def)

lemma step_seq:
  "seqOf d (snd (bridgeStep cd b (d', msg))) =
     (if d' = d \<and> isRequest cd msg then seqOf d b + 1 else seqOf d b)"
proof (cases "isRequest cd msg")
  case True
  then obtain envelope origID where e: "unmarshalEnvelope cd msg = Some envelope"
    "map_of envelope ''id'' = Some origID" "map_of envelope ''method'' \<noteq> None"
    using isRequest_cases by blast
  show ?thesis
  proof (cases "d' = d")
    case True
    then show ?thesis using step_request(2)[OF e, where b = b and d = d] \<open>isRequest cd msg\<close> by simp
  next
    case False
    then have "d = other d'" using other_eq[of d d'] by simp
    then show ?thesis using step_request(3)[OF e, where b = b and d = d'] False by simp
  qed
next
  case False
  then show ?thesis using step_not_request(1)[OF False] by simp
qed

lemma allocated_shape:
  "allocated cd d b evs =
     map (\<lambda>i. proxyIDOf (seqOf d b + of_nat i)) [1..<Suc (requestCount cd d evs)] \<and>
   seqOf d (bridgeRun cd b evs) = seqOf d b + of_nat (requestCount cd d evs)"
proof (induction evs arbitrary: b)
  case Nil
  then show ?case by (simp add: requestCount_def)
next
  case (Cons ev evs)
  obtain d' msg where ev: "ev = (d', msg)" by (cases ev)
  let ?b = "snd (bridgeStep cd b ev)"
  note ih = Cons.IH[of ?b]
  show ?case
  proof (cases "d' = d \<and> isRequest cd msg")
    case True
    then have sq: "seqOf d ?b = seqOf d b + 1" using step_seq[of d cd b d' msg] ev by simp
    have rc: "requestCount cd d (ev # evs) = Suc (requestCount cd d evs)"
      using True ev by (simp add: requestCount_def)
    have ne: "seqOf d ?b \<noteq> seqOf d b" using sq by simp
    have m: "map (\<lambda>i. proxyIDOf (seqOf d b + 1 + of_nat i)) [Suc 0..<Suc n] =
             map (\<lambda>i. proxyIDOf (seqOf d b + of_nat i)) [Suc (Suc 0)..<Suc (Suc n)]" for n
    proof -
      have "[Suc (Suc 0)..<Suc (Suc n)] = map Suc [Suc 0..<Suc n]"
        by (simp only: map_Suc_upt)
      then show ?thesis by (simp add: comp_def add.assoc)
    qed
    have u: "[Suc 0..<Suc (Suc n)] = Suc 0 # [Suc (Suc 0)..<Suc (Suc n)]" for n
      by (simp add: upt_conv_Cons)
    have "allocated cd d b (ev # evs) =
            proxyIDOf (seqOf d b + 1) # allocated cd d ?b evs"
      using ne by (simp add: Let_def sq)
    also have "allocated cd d ?b evs =
        map (\<lambda>i. proxyIDOf (seqOf d b + 1 + of_nat i)) [Suc 0..<Suc (requestCount cd d evs)]"
      using ih by (simp add: sq)
    finally have a: "allocated cd d b (ev # evs) =
        map (\<lambda>i. proxyIDOf (seqOf d b + of_nat i)) [Suc 0..<Suc (requestCount cd d (ev # evs))]"
      unfolding rc m u by simp
    have "seqOf d (bridgeRun cd b (ev # evs)) = seqOf d b + of_nat (requestCount cd d (ev # evs))"
      using ih by (simp add: sq rc add.assoc)
    with a show ?thesis by simp
  next
    case False
    then have sq: "seqOf d ?b = seqOf d b" using step_seq[of d cd b d' msg] ev by simp
    have rc: "requestCount cd d (ev # evs) = requestCount cd d evs"
      using False ev by (auto simp: requestCount_def)
    show ?thesis using ih by (simp add: Let_def sq rc)
  qed
qed

lemma requestCount_le: "requestCount cd d evs \<le> length evs"
  by (simp add: requestCount_def)

lemma unat_of_nat_64: "i < 2 ^ 64 \<Longrightarrow> unat (of_nat i :: 64 word) = i"
proof -
  assume a: "i < 2 ^ 64"
  have l: "LENGTH(64) = 64" by simp
  have "unat (of_nat i :: 64 word) = i mod 2 ^ LENGTH(64)" by (rule unat_of_nat)
  also have "\<dots> = i mod 2 ^ 64" by (simp only: l)
  also have "\<dots> = i" using a by (rule mod_less)
  finally show ?thesis .
qed

lemma of_nat_64_inj:
  assumes "i < 2 ^ 64" "j < 2 ^ 64" "(of_nat i :: 64 word) = of_nat j"
  shows "i = j"
proof -
  have "i = unat (of_nat i :: 64 word)" using unat_of_nat_64[OF assms(1)] by (rule sym)
  also have "\<dots> = unat (of_nat j :: 64 word)" by (rule arg_cong[OF assms(3)])
  also have "\<dots> = j" by (rule unat_of_nat_64[OF assms(2)])
  finally show ?thesis .
qed

lemma other_other: "other (other d) = d"
  by (cases d) (simp_all add: other_def)

lemma bridgeRun_append:
  "bridgeRun cd b (xs @ ys) = bridgeRun cd (bridgeRun cd b xs) ys"
  by (induction xs arbitrary: b) auto

lemma allocated_append:
  "allocated cd d b (xs @ ys) = allocated cd d b xs @ allocated cd d (bridgeRun cd b xs) ys"
  by (induction xs arbitrary: b) (auto simp: Let_def)

lemma allocated_distinct:
  assumes "length evs < 2 ^ 64"
  shows "distinct (allocated cd d b evs)"
proof -
  let ?j = "requestCount cd d evs"
  let ?f = "\<lambda>i. proxyIDOf (seqOf d b + of_nat i)"
  have j: "?j < 2 ^ 64"
    using requestCount_le[of cd d evs] assms by (rule le_less_trans)
  have "inj_on ?f (set [1..<Suc ?j])"
  proof (rule inj_onI)
    fix x y
    assume x: "x \<in> set [1..<Suc ?j]" and y: "y \<in> set [1..<Suc ?j]" and e: "?f x = ?f y"
    have xj: "x \<le> ?j" and yj: "y \<le> ?j" using x y by auto
    have xl: "x < 2 ^ 64" using xj j by (rule le_less_trans)
    have yl: "y < 2 ^ 64" using yj j by (rule le_less_trans)
    from e have "seqOf d b + of_nat x = seqOf d b + of_nat y" by (rule proxyIDOf_inj)
    then have "(of_nat x :: 64 word) = of_nat y" by (rule add_left_imp_eq)
    with xl yl show "x = y" by (rule of_nat_64_inj)
  qed
  then have "distinct (map ?f [1..<Suc ?j])" by (simp add: distinct_map)
  then show ?thesis using allocated_shape[of cd d b evs] by simp
qed

lemma mapping_persists:
  assumes "mapOf d b pid = Some orig"
    and "\<forall>msg. (other d, msg) \<in> set mid \<longrightarrow> \<not> isResponseTo cd pid msg"
    and "pid \<notin> set (allocated cd d b mid)"
  shows "mapOf d (bridgeRun cd b mid) pid = Some orig"
  using assms
proof (induction mid arbitrary: b)
  case Nil
  then show ?case by simp
next
  case (Cons ev mid)
  obtain d' msg where ev: "ev = (d', msg)" by (cases ev)
  let ?b = "snd (bridgeStep cd b ev)"
  have al: "pid \<notin> set (allocated cd d ?b mid)"
    using Cons.prems(3) by (simp add: Let_def)
  have nr: "\<forall>msg. (other d, msg) \<in> set mid \<longrightarrow> \<not> isResponseTo cd pid msg"
    using Cons.prems(2) by simp
  have keep: "mapOf d ?b pid = Some orig"
  proof (cases "isRequest cd msg")
    case True
    then obtain envelope origID where e: "unmarshalEnvelope cd msg = Some envelope"
      "map_of envelope ''id'' = Some origID" "map_of envelope ''method'' \<noteq> None"
      using isRequest_cases by blast
    show ?thesis
    proof (cases "d' = d")
      case True
      have sq: "seqOf d ?b = seqOf d b + 1"
        using step_request(2)[OF e, where b = b and d = d] True ev by simp
      then have "seqOf d ?b \<noteq> seqOf d b" by simp
      then have "proxyIDOf (seqOf d b + 1) \<in> set (allocated cd d b (ev # mid))"
        using sq by (simp add: Let_def)
      then have ne: "pid \<noteq> proxyIDOf (seqOf d b + 1)" using Cons.prems(3) by blast
      show ?thesis
        using step_request(5)[OF e, where b = b and d = d] True ev ne Cons.prems(1)
        by (simp split: option.splits)
    next
      case False
      then have "d = other d'" using other_eq[of d d'] by simp
      then show ?thesis
        using step_request(4)[OF e, where b = b and d = d'] ev Cons.prems(1) by simp
    qed
  next
    case False
    show ?thesis
    proof (cases "d' = d")
      case True
      then show ?thesis
        using step_not_request(2)[OF False, where b = b and d = d] ev Cons.prems(1) by simp
    next
      case F: False
      then have o: "d' = other d" using other_eq[of d' d] by simp
      then have "\<not> isResponseTo cd pid msg" using Cons.prems(2) ev by simp
      from step_not_request(3)[OF False this, where b = b and d = d']
      show ?thesis using o ev Cons.prems(1) by (simp add: other_other)
    qed
  qed
  show ?case using Cons.IH[OF keep nr al] by simp
qed

lemma step_response:
  assumes "unmarshalEnvelope cd msg = Some envelope" "map_of envelope ''id'' = Some raw"
    "map_of envelope ''method'' = None" "unmarshalString cd raw = Some ident"
    "mapOf d b ident = Some orig" "Marshal cd (AList.update ''id'' orig envelope) = Some back"
  shows "fst (bridgeStep cd b (other d, msg)) = Some back"
    and "mapOf d (snd (bridgeStep cd b (other d, msg))) = (mapOf d b)(ident := None)"
    and "mapOf (other d) (snd (bridgeStep cd b (other d, msg))) = mapOf (other d) b"
    and "seqOf d' (snd (bridgeStep cd b (other d, msg))) = seqOf d' b"
proof -
  note defs = bridgeStep_def onLeftMessage_def onRightMessage_def seqOf_def mapOf_def other_def
  have l: "d = Right \<Longrightarrow> forward cd msg (leftSeq b, leftMap b, rightMap b) =
      (Some back, leftSeq b, leftMap b, (rightMap b)(ident := None))"
    using forward_response[OF assms(1-4) _ assms(6), of "rightMap b" "leftSeq b" "leftMap b"]
      assms(5) by (simp add: mapOf_def)
  have r: "d = Left \<Longrightarrow> forward cd msg (rightSeq b, rightMap b, leftMap b) =
      (Some back, rightSeq b, rightMap b, (leftMap b)(ident := None))"
    using forward_response[OF assms(1-4) _ assms(6), of "leftMap b" "rightSeq b" "rightMap b"]
      assms(5) by (simp add: mapOf_def)
  show "fst (bridgeStep cd b (other d, msg)) = Some back"
    using l r by (cases d) (simp_all add: defs)
  show "mapOf d (snd (bridgeStep cd b (other d, msg))) = (mapOf d b)(ident := None)"
    using l r by (cases d) (simp_all add: defs)
  show "mapOf (other d) (snd (bridgeStep cd b (other d, msg))) = mapOf (other d) b"
    using l r by (cases d) (simp_all add: defs)
  show "seqOf d' (snd (bridgeStep cd b (other d, msg))) = seqOf d' b"
    using l r by (cases d; cases d') (simp_all add: defs)
qed

lemma seqOf_NewBridge: "seqOf d NewBridge = 0"
  by (cases d) (simp_all add: seqOf_def NewBridge_def)

lemma first_ids_positive:
  assumes "length (pre @ [ev]) < 2 ^ 64"
  shows "proxyIDOf (seqOf d (bridgeRun cd NewBridge pre) + 1)
           = ''proxy-'' @ show_nat (Suc (requestCount cd d pre))"
proof -
  let ?n = "requestCount cd d pre"
  have "Suc ?n \<le> length (pre @ [ev])" using requestCount_le[of cd d pre] by simp
  then have lt: "Suc ?n < 2 ^ 64" using assms by (rule le_less_trans)
  have "seqOf d (bridgeRun cd NewBridge pre) + 1 = of_nat (Suc ?n)"
    using allocated_shape[of cd d NewBridge pre] by (simp add: seqOf_NewBridge)
  then have "unat (seqOf d (bridgeRun cd NewBridge pre) + 1) = Suc ?n"
    using unat_of_nat_64[OF lt] by (simp only: )
  then show ?thesis by (simp only: proxyIDOf_def)
qed

text \<open>
  Bytes that \<open>compact\<close> copies wherever they stand: everything but \<open><\<close>, \<open>>\<close>, \<open>&\<close>, the
  lead byte \<open>0xE2\<close> and white space.
\<close>

definition plainByte :: "char \<Rightarrow> bool" where
  "plainByte c =
     (c \<notin> {CHR ''<'', CHR ''>'', CHR ''&'', CHR 0xE2, CHR '' '', CHR 0x09, CHR 0x0A, CHR 0x0D})"

lemma compact_plain: "list_all plainByte v \<Longrightarrow> compact q e v = v"
  by (induction v arbitrary: q e) (auto simp: plainByte_def Let_def)

lemma commaJoin_member: "x \<in> set xs \<Longrightarrow> \<exists>pre post. commaJoin xs = pre @ x @ post"
proof (induction xs rule: commaJoin.induct)
  case 1
  then show ?case by simp
next
  case (2 y)
  then have "commaJoin [y] = [] @ x @ []" by simp
  then show ?case by blast
next
  case (3 a b zs)
  show ?case
  proof (cases "x = a")
    case True
    then have "commaJoin (a # b # zs) = [] @ x @ ('','' @ commaJoin (b # zs))" by simp
    then show ?thesis by blast
  next
    case False
    then have "x \<in> set (b # zs)" using "3.prems" by simp
    then obtain pre post where "commaJoin (b # zs) = pre @ x @ post" using "3.IH" by blast
    then have "commaJoin (a # b # zs) = (a @ '','' @ pre) @ x @ post" by simp
    then show ?thesis by blast
  qed
qed

lemma Marshal_id_member:
  assumes "Marshal cd (AList.update ''id'' v m) = Some out"
  shows \<open>\<exists>pre post. out = pre @ ''"id":'' @ compact False False v @ post\<close>
proof -
  let ?f = "\<lambda>kv. encodeString (escapeString cd) (fst kv) @ '':'' @ compact False False (snd kv)"
  let ?m = "AList.update ''id'' v m"
  have "map_of ?m ''id'' = Some v" by (simp add: update_conv')
  then have "(''id'', v) \<in> set ?m" by (rule map_of_SomeD)
  then have "?f (''id'', v) \<in> ?f ` set ?m" by (rule imageI)
  then have "?f (''id'', v) \<in> set (map ?f (sort_key fst ?m))" by simp
  then obtain pre post where j: "commaJoin (map ?f (sort_key fst ?m)) = pre @ ?f (''id'', v) @ post"
    using commaJoin_member by blast
  have k: \<open>?f (''id'', v) = ''"id":'' @ compact False False v\<close>
    by (simp add: encodeString_def htmlSafe_def)
  have "out = ''{'' @ commaJoin (map ?f (sort_key fst ?m)) @ ''}''"
    using assms by (simp add: Marshal_def split: if_splits)
  then have \<open>out = (''{'' @ pre) @ ''"id":'' @ compact False False v @ (post @ ''}'')\<close>
    unfolding j k by simp
  then show ?thesis by blast
qed

text \<open>
  A codec for concrete runs: it decodes the messages of the runs below, takes a quoted
  string without escapes for the Go string between the quotes, and accepts every token
  it has decoded as valid JSON.
\<close>

definition demo_codec :: codec where
  \<open>demo_codec =
     \<lparr>unmarshalEnvelope = (\<lambda>raw.
        if raw = ''{"jsonrpc":"2.0","id":"test-123","method":"initialize"}''
        then Some [(''jsonrpc'', ''"2.0"''), (''id'', ''"test-123"''), (''method'', ''"initialize"'')]
        else if raw = ''{"jsonrpc":"2.0","id":"<a&b>","method":"ping"}''
        then Some [(''jsonrpc'', ''"2.0"''), (''id'', ''"<a&b>"''), (''method'', ''"ping"'')]
        else if raw = ''{"jsonrpc":"2.0","method":"notify"}''
        then Some [(''jsonrpc'', ''"2.0"''), (''method'', ''"notify"'')]
        else if raw = ''{"jsonrpc":"2.0","id":"proxy-1","result":{}}''
        then Some [(''jsonrpc'', ''"2.0"''), (''id'', ''"proxy-1"''), (''result'', ''{}'')]
        else if raw = ''{"jsonrpc":"2.0","id":"proxy-2","result":{}}''
        then Some [(''jsonrpc'', ''"2.0"''), (''id'', ''"proxy-2"''), (''result'', ''{}'')]
        else None),
      unmarshalString = (\<lambda>raw.
        if 2 \<le> length raw \<and> hd raw = CHR 0x22 \<and> last raw = CHR 0x22
        then Some (butlast (tl raw)) else None),
      validJSON = (\<lambda>raw. True),
      escapeString = (\<lambda>s. s)\<rparr>\<close>

text \<open>
  What the bridge does for a request and its response. Take a run of a new bridge with
  fewer than \<open>2^64\<close> messages, in which side \<open>d\<close> sends a request (an object with \<open>id\<close> and
  \<open>method\<close>) whose rewritten envelope serialises. The message forwarded is the
  serialisation of the envelope with the id replaced by the quoted string \<open>proxy-n\<close>,
  where \<open>n\<close> is positive: it is the number of this request among the requests of side \<open>d\<close>.
  The proxy ids allocated for side \<open>d\<close> in the run are pairwise distinct. The map of side
  \<open>d\<close> keeps the original raw id under the proxy id as long as the other side sends no
  response with that proxy id; when such a response (an object with \<open>id\<close> and without
  \<open>method\<close>, whose id decodes to the proxy id) then arrives from the other side, the
  message forwarded is the serialisation of its envelope with the id replaced by the
  original raw id, and the mapping is removed. In that serialisation the id member
  carries the compacted original raw id, which is the original raw id itself when that
  consists of plain bytes.
\<close>

lemma bridge_namespaces_request_ids:
  assumes "b = bridgeRun cd NewBridge pre" and "pid = proxyIDOf (seqOf d b + 1)"
    and "length (pre @ (d, req) # mid) < 2 ^ 64"
    and "unmarshalEnvelope cd req = Some envelope" and "map_of envelope ''id'' = Some origID"
    and "map_of envelope ''method'' \<noteq> None"
    and "Marshal cd (AList.update ''id'' (strQuote pid) envelope) = Some out"
    and "\<forall>msg. (other d, msg) \<in> set mid \<longrightarrow> \<not> isResponseTo cd pid msg"
    and "unmarshalEnvelope cd resp = Some renv" and "map_of renv ''id'' = Some raw"
    and "map_of renv ''method'' = None" and "unmarshalString cd raw = Some pid"
    and "Marshal cd (AList.update ''id'' origID renv) = Some back"
    and "b2 = bridgeRun cd b ((d, req) # mid)"
  shows \<open>fst (bridgeStep cd b (d, req)) = Some out \<and>
         pid = ''proxy-'' @ show_nat (Suc (requestCount cd d pre)) \<and>
         distinct (allocated cd d NewBridge (pre @ (d, req) # mid)) \<and>
         allocated cd d NewBridge (pre @ [(d, req)]) = allocated cd d NewBridge pre @ [pid] \<and>
         mapOf d b2 pid = Some origID \<and>
         fst (bridgeStep cd b2 (other d, resp)) = Some back \<and>
         mapOf d (snd (bridgeStep cd b2 (other d, resp))) pid = None \<and>
         (\<exists>before after. back = before @ ''"id":'' @ compact False False origID @ after) \<and>
         (list_all plainByte origID \<longrightarrow> compact False False origID = origID)\<close>
proof -
  let ?b1 = "snd (bridgeStep cd b (d, req))"
  note rq = assms(4,5,6)
  have sent: "fst (bridgeStep cd b (d, req)) = Some out"
    using step_request(1)[OF rq, where b = b and d = d] assms(2,7) by simp
  have "length (pre @ [(d, req)]) \<le> length (pre @ (d, req) # mid)" by simp
  then have l1: "length (pre @ [(d, req)]) < 2 ^ 64" using assms(3) by (rule le_less_trans)
  have pos: "pid = ''proxy-'' @ show_nat (Suc (requestCount cd d pre))"
    unfolding assms(1,2) by (rule first_ids_positive[OF l1])
  have dist: "distinct (allocated cd d NewBridge (pre @ (d, req) # mid))"
    by (rule allocated_distinct[OF assms(3)])
  have sq: "seqOf d ?b1 = seqOf d b + 1"
    by (rule step_request(2)[OF rq])
  then have ne: "seqOf d ?b1 \<noteq> seqOf d b" by simp
  have a1: "allocated cd d b ((d, req) # mid) = pid # allocated cd d ?b1 mid"
    using ne by (simp add: Let_def sq assms(2))
  have al: "allocated cd d NewBridge (pre @ (d, req) # mid) =
      allocated cd d NewBridge pre @ pid # allocated cd d ?b1 mid"
    by (simp only: allocated_append[of cd d NewBridge pre] assms(1)[symmetric] a1)
  have a2: "allocated cd d NewBridge (pre @ [(d, req)]) = allocated cd d NewBridge pre @ [pid]"
    using ne by (simp add: allocated_append assms(1)[symmetric] Let_def sq assms(2))
  have fresh: "pid \<notin> set (allocated cd d ?b1 mid)"
    using dist unfolding al by simp
  have m1: "mapOf d ?b1 pid = Some origID"
    using step_request(5)[OF rq, where b = b and d = d] assms(2,7) by simp
  have b2: "b2 = bridgeRun cd ?b1 mid" by (simp add: assms(14))
  have m2: "mapOf d b2 pid = Some origID"
    unfolding b2 by (rule mapping_persists[OF m1 assms(8) fresh])
  note rs = step_response[OF assms(9,10,11,12) m2 assms(13)]
  note mem = Marshal_id_member[OF assms(13)]
  have pl: "list_all plainByte origID \<longrightarrow> compact False False origID = origID"
    by (simp add: compact_plain)
  from sent pos dist a2 m2 rs(1) rs(2) mem pl show ?thesis by simp
qed

lemma bridge_namespaces_request_ids_example:
  \<open>bridgeRun demo_codec NewBridge [] = NewBridge \<and>
   proxyIDOf (seqOf Left NewBridge + 1) = ''proxy-1'' \<and>
   fst (bridgeStep demo_codec NewBridge
          (Left, ''{"jsonrpc":"2.0","id":"test-123","method":"initialize"}''))
     = Some ''{"id":"proxy-1","jsonrpc":"2.0","method":"initialize"}'' \<and>
   mapOf Left (bridgeRun demo_codec NewBridge
       [(Left, ''{"jsonrpc":"2.0","id":"test-123","method":"initialize"}''),
        (Left, ''{"jsonrpc":"2.0","method":"notify"}''),
        (Right, ''{"jsonrpc":"2.0","id":"proxy-2","result":{}}'')]) ''proxy-1''
     = Some ''"test-123"'' \<and>
   fst (bridgeStep demo_codec
       (bridgeRun demo_codec NewBridge
          [(Left, ''{"jsonrpc":"2.0","id":"test-123","method":"initialize"}''),
           (Left, ''{"jsonrpc":"2.0","method":"notify"}''),
           (Right, ''{"jsonrpc":"2.0","id":"proxy-2","result":{}}'')])
       (Right, ''{"jsonrpc":"2.0","id":"proxy-1","result":{}}''))
     = Some ''{"id":"test-123","jsonrpc":"2.0","result":{}}'' \<and>
   mapOf Left (snd (bridgeStep demo_codec
       (bridgeRun demo_codec NewBridge
          [(Left, ''{"jsonrpc":"2.0","id":"test-123","method":"initialize"}''),
           (Left, ''{"jsonrpc":"2.0","method":"notify"}''),
           (Right, ''{"jsonrpc":"2.0","id":"proxy-2","result":{}}'')])
       (Right, ''{"jsonrpc":"2.0","id":"proxy-1","result":{}}''))) ''proxy-1'' = None\<close>
proof -
  let ?env = \<open>[(''jsonrpc'', ''"2.0"''), (''id'', ''"test-123"''), (''method'', ''"initialize"'')]\<close>
  let ?renv = \<open>[(''jsonrpc'', ''"2.0"''), (''id'', ''"proxy-1"''), (''result'', ''{}'')]\<close>
  have p: "proxyIDOf (seqOf Left NewBridge + 1) = ''proxy-1''"
    by (simp add: proxyIDOf_def seqOf_NewBridge show_nat.simps digit_char_def)
  have len: \<open>length ([] @ (Left, ''{"jsonrpc":"2.0","id":"test-123","method":"initialize"}'') #
      [(Left, ''{"jsonrpc":"2.0","method":"notify"}''),
       (Right, ''{"jsonrpc":"2.0","id":"proxy-2","result":{}}'')]) < 2 ^ 64\<close>
    by simp
  have e: \<open>unmarshalEnvelope demo_codec ''{"jsonrpc":"2.0","id":"test-123","method":"initialize"}''
      = Some ?env\<close>
    \<open>map_of ?env ''id'' = Some ''"test-123"''\<close>
    \<open>map_of ?env ''method'' \<noteq> None\<close>
    by (simp_all add: demo_codec_def)
  have mo: \<open>Marshal demo_codec (AList.update ''id'' (strQuote ''proxy-1'') ?env)
      = Some ''{"id":"proxy-1","jsonrpc":"2.0","method":"initialize"}''\<close>
    by (simp add: Marshal_def demo_codec_def strQuote_def encodeString_def htmlSafe_def
        AList.update.simps Let_def)
  have mid: \<open>\<forall>msg. (other Left, msg) \<in> set [(Left, ''{"jsonrpc":"2.0","method":"notify"}''),
        (Right, ''{"jsonrpc":"2.0","id":"proxy-2","result":{}}'')]
      \<longrightarrow> \<not> isResponseTo demo_codec ''proxy-1'' msg\<close>
    by (simp add: other_def isResponseTo_def demo_codec_def)
  have r: \<open>unmarshalEnvelope demo_codec ''{"jsonrpc":"2.0","id":"proxy-1","result":{}}''
      = Some ?renv\<close>
    \<open>map_of ?renv ''id'' = Some ''"proxy-1"''\<close>
    \<open>map_of ?renv ''method'' = None\<close>
    \<open>unmarshalString demo_codec ''"proxy-1"'' = Some ''proxy-1''\<close>
    by (simp_all add: demo_codec_def)
  have mb: \<open>Marshal demo_codec (AList.update ''id'' ''"test-123"'' ?renv)
      = Some ''{"id":"test-123","jsonrpc":"2.0","result":{}}''\<close>
    by (simp add: Marshal_def demo_codec_def encodeString_def htmlSafe_def
        AList.update.simps Let_def)
  have r0: "NewBridge = bridgeRun demo_codec NewBridge []" by simp
  note t = bridge_namespaces_request_ids [where cd = demo_codec and pre = "[]" and d = Left
      and b = NewBridge and pid = "''proxy-1''"
      and req = \<open>''{"jsonrpc":"2.0","id":"test-123","method":"initialize"}''\<close>
      and mid = \<open>[(Left, ''{"jsonrpc":"2.0","method":"notify"}''),
                  (Right, ''{"jsonrpc":"2.0","id":"proxy-2","result":{}}'')]\<close>
      and resp = \<open>''{"jsonrpc":"2.0","id":"proxy-1","result":{}}''\<close>,
      OF r0 p[symmetric] len e mo mid r mb refl]
  have o: "other Left = Right" by (simp add: other_def)
  note t' = t[unfolded o]
  have r1: "bridgeRun demo_codec NewBridge [] = NewBridge" by simp
  from t' r1 p show ?thesis by blast
qed

lemmas bridge_eval =
  bridgeStep_def onLeftMessage_def onRightMessage_def forward_def NewBridge_def demo_codec_def
  Marshal_def strQuote_def encodeString_def htmlSafe_def proxyIDOf_def show_nat.simps
  digit_char_def hexDigit_def mapOf_def AList.update.simps Let_def

text \<open>
  Claim C2 on the code, at an input where it fails. The left side sends a request
  whose id is the JSON string \<open>"<a&b>"\<close>. The bridge forwards it with the id \<open>"proxy-1"\<close> and
  keeps the seven bytes of the original raw id under \<open>proxy-1\<close>. When the right side
  answers with the id \<open>"proxy-1"\<close>, the bridge puts the stored raw id back into the
  envelope and serialises it with \<open>json.Marshal\<close>, which escapes \<open><\<close>, \<open>&\<close> and \<open>>\<close> in a raw
  message: the forwarded response carries the id as twenty-two bytes, with a backslash
  and \<open>u003c\<close>, \<open>u0026\<close>, \<open>u003e\<close> in place of the three characters, not as the seven bytes
  that the left side sent. The mapping is removed.
\<close>

theorem response_id_is_not_restored_byte_for_byte:
  \<open>fst (bridgeStep demo_codec NewBridge
          (Left, ''{"jsonrpc":"2.0","id":"<a&b>","method":"ping"}''))
     = Some ''{"id":"proxy-1","jsonrpc":"2.0","method":"ping"}'' \<and>
   mapOf Left (snd (bridgeStep demo_codec NewBridge
          (Left, ''{"jsonrpc":"2.0","id":"<a&b>","method":"ping"}''))) ''proxy-1''
     = Some ''"<a&b>"'' \<and>
   fst (bridgeStep demo_codec
          (snd (bridgeStep demo_codec NewBridge
             (Left, ''{"jsonrpc":"2.0","id":"<a&b>","method":"ping"}'')))
          (Right, ''{"jsonrpc":"2.0","id":"proxy-1","result":{}}''))
     = Some (''{"id":"'' @ [CHR 0x5C] @ ''u003ca'' @ [CHR 0x5C] @ ''u0026b'' @ [CHR 0x5C] @
             ''u003e","jsonrpc":"2.0","result":{}}'') \<and>
   fst (bridgeStep demo_codec
          (snd (bridgeStep demo_codec NewBridge
             (Left, ''{"jsonrpc":"2.0","id":"<a&b>","method":"ping"}'')))
          (Right, ''{"jsonrpc":"2.0","id":"proxy-1","result":{}}''))
     \<noteq> Some ''{"id":"<a&b>","jsonrpc":"2.0","result":{}}'' \<and>
   mapOf Left (snd (bridgeStep demo_codec
          (snd (bridgeStep demo_codec NewBridge
             (Left, ''{"jsonrpc":"2.0","id":"<a&b>","method":"ping"}'')))
          (Right, ''{"jsonrpc":"2.0","id":"proxy-1","result":{}}''))) ''proxy-1'' = None\<close>
proof -
  let ?b1 = \<open>snd (bridgeStep demo_codec NewBridge
             (Left, ''{"jsonrpc":"2.0","id":"<a&b>","method":"ping"}''))\<close>
  have a: \<open>fst (bridgeStep demo_codec NewBridge
          (Left, ''{"jsonrpc":"2.0","id":"<a&b>","method":"ping"}''))
     = Some ''{"id":"proxy-1","jsonrpc":"2.0","method":"ping"}''\<close>
    by (simp add: bridge_eval)
  have b1: \<open>?b1 = \<lparr>leftSeq = 1, rightSeq = 0, leftMap = [''proxy-1'' \<mapsto> ''"<a&b>"''],
                   rightMap = Map.empty\<rparr>\<close>
    by (simp add: bridge_eval)
  have b: \<open>mapOf Left ?b1 ''proxy-1'' = Some ''"<a&b>"''\<close>
    unfolding b1 by (simp add: mapOf_def)
  have c: \<open>fst (bridgeStep demo_codec ?b1 (Right, ''{"jsonrpc":"2.0","id":"proxy-1","result":{}}''))
     = Some (''{"id":"'' @ [CHR 0x5C] @ ''u003ca'' @ [CHR 0x5C] @ ''u0026b'' @ [CHR 0x5C] @
             ''u003e","jsonrpc":"2.0","result":{}}'')\<close>
    unfolding b1 by (simp add: bridge_eval)
  have d: \<open>fst (bridgeStep demo_codec ?b1 (Right, ''{"jsonrpc":"2.0","id":"proxy-1","result":{}}''))
     \<noteq> Some ''{"id":"<a&b>","jsonrpc":"2.0","result":{}}''\<close>
    unfolding c by simp
  have e: \<open>mapOf Left (snd (bridgeStep demo_codec ?b1
              (Right, ''{"jsonrpc":"2.0","id":"proxy-1","result":{}}''))) ''proxy-1'' = None\<close>
    unfolding b1 by (simp add: bridge_eval)
  from a b c d e show ?thesis by blast
qed

end
